theory Spec2Isabelle
  imports Complex_Main "HOL-Library.Word"
begin

unbundle bit_operations_syntax

section \<open>The engine: \<open>detail::Lehmer64Fast\<close>\<close>

text \<open>
  \<open>state_type\<close> is \<open>__uint128_t\<close>, \<open>result_type\<close> is \<open>uint64_t\<close> and
  \<open>seed_type\<close> is \<open>std::array<uint32_t, 4>\<close>. The class has the single data member
  \<open>state_\<close>, written \<open>state_m\<close> here (an Isabelle name cannot end in an underscore).
\<close>

type_synonym state_type = "128 word"
type_synonym result_type = "64 word"
type_synonym seed_type = "32 word \<times> 32 word \<times> 32 word \<times> 32 word"

record Lehmer64Fast =
  state_m :: state_type

definition MCG_MULT :: "64 word" where
  "MCG_MULT = 0xda942042e4dd58b5"

definition STYPE_BITS :: nat where
  "STYPE_BITS = 8 * 16"

definition RTYPE_BITS :: nat where
  "RTYPE_BITS = 8 * 8"

text \<open>\<open>state_ = state | 1\<close> (under the source's comment "state cannot be odd").\<close>

definition SetState :: "Lehmer64Fast \<Rightarrow> state_type \<Rightarrow> Lehmer64Fast" where
  "SetState e state = e\<lparr>state_m := state OR 1\<rparr>"

text \<open>
  \<open>std::memcpy(&state, &seed, sizeof(seed))\<close> on a little-endian target (the only byte
  order on which \<open>__uint128_t\<close> is in common use): \<open>seed[0]\<close> lands in the low 32 bits.
\<close>

definition memcpy_seed :: "seed_type \<Rightarrow> state_type" where
  "memcpy_seed seed = (case seed of (s0, s1, s2, s3) \<Rightarrow>
     ucast s0 OR push_bit 32 (ucast s1) OR push_bit 64 (ucast s2) OR push_bit 96 (ucast s3))"

definition Seed :: "Lehmer64Fast \<Rightarrow> seed_type \<Rightarrow> Lehmer64Fast" where
  "Seed e seed = SetState e (memcpy_seed seed)"

text \<open>
  The constructors assign \<open>state_\<close> through \<open>SetState\<close> and \<open>Seed\<close>; the member holds
  no value before that, and the model starts it at 0, which \<open>SetState\<close> overwrites.
  The default argument of the first constructor is \<open>0x9f57c403d06c42fc\<close>.
\<close>

definition Lehmer64Fast_of_state :: "state_type \<Rightarrow> Lehmer64Fast" where
  "Lehmer64Fast_of_state state = SetState \<lparr>state_m = 0\<rparr> state"

definition Lehmer64Fast_default :: Lehmer64Fast where
  "Lehmer64Fast_default = Lehmer64Fast_of_state 0x9f57c403d06c42fc"

definition Lehmer64Fast_of_seed :: "seed_type \<Rightarrow> Lehmer64Fast" where
  "Lehmer64Fast_of_seed seed = Seed \<lparr>state_m = 0\<rparr> seed"

definition Advance :: "Lehmer64Fast \<Rightarrow> Lehmer64Fast" where
  "Advance e = e\<lparr>state_m := state_m e * ucast MCG_MULT\<rparr>"

text \<open>\<open>for(size_t k=0;k<count;++k) Advance();\<close> with the 64-bit counter of the source.\<close>

function Discard_loop :: "64 word \<Rightarrow> 64 word \<Rightarrow> Lehmer64Fast \<Rightarrow> Lehmer64Fast" where
  "Discard_loop k count e = (if k < count then Discard_loop (k + 1) count (Advance e) else e)"
  by pat_completeness auto
termination
proof (relation "measure (\<lambda>(k, count, e). unat count - unat k)")
  show "wf (measure (\<lambda>(k, count, e). unat count - unat k))"
    by simp
next
  fix k count :: "64 word" and e :: Lehmer64Fast
  assume lt: "k < count"
  then have "unat k < unat count"
    by (simp add: word_less_nat_alt)
  moreover have "unat count < 2 ^ 64"
    using unsigned_less [of count] by simp
  ultimately have "unat (k + 1) = Suc (unat k)"
    by (simp add: unat_word_ariths)
  with \<open>unat k < unat count\<close> show "((k + 1, count, Advance e), (k, count, e))
      \<in> measure (\<lambda>(k, count, e). unat count - unat k)"
    by simp
qed

declare Discard_loop.simps [simp del]

definition Discard :: "Lehmer64Fast \<Rightarrow> 64 word \<Rightarrow> Lehmer64Fast" where
  "Discard e count = Discard_loop 0 count e"

definition GetState :: "Lehmer64Fast \<Rightarrow> state_type" where
  "GetState e = state_m e"

text \<open>\<open>operator()\<close>: the pair of the returned value and the engine after the call.\<close>

definition operator_call :: "Lehmer64Fast \<Rightarrow> result_type \<times> Lehmer64Fast" where
  "operator_call e = (let e' = Advance e
     in (ucast (drop_bit (STYPE_BITS - RTYPE_BITS) (state_m e')), e'))"

text \<open>The first \<open>k\<close> draws of an engine, in order, and the engine left behind.\<close>

fun draws :: "nat \<Rightarrow> Lehmer64Fast \<Rightarrow> result_type list \<times> Lehmer64Fast" where
  "draws 0 e = ([], e)"
| "draws (Suc k) e = (case operator_call e of (x, e') \<Rightarrow>
     (case draws k e' of (xs, e'') \<Rightarrow> (x # xs, e'')))"

text \<open>
  The engine values a program can hold: built by a constructor, then changed only by the
  member functions of the class.
\<close>

inductive reachable :: "Lehmer64Fast \<Rightarrow> bool" where
  r_of_state: "reachable (Lehmer64Fast_of_state state)"
| r_of_seed: "reachable (Lehmer64Fast_of_seed seed)"
| r_SetState: "reachable e \<Longrightarrow> reachable (SetState e state)"
| r_Seed: "reachable e \<Longrightarrow> reachable (Seed e seed)"
| r_Advance: "reachable e \<Longrightarrow> reachable (Advance e)"
| r_Discard: "reachable e \<Longrightarrow> reachable (Discard e count)"
| r_call: "reachable e \<Longrightarrow> reachable (snd (operator_call e))"

section \<open>Faults\<close>

text \<open>
  What the source does instead of returning: a failed \<open>assert\<close>, and the operations
  whose behaviour C++ leaves undefined (a modulo by zero, a shift by a count outside
  the width of its operand, a \<open>std::vector\<close> read outside its size).
\<close>

datatype fault = DivideByZero | AssertionFailed | ShiftOutOfRange | IndexOutOfRange

section \<open>The uniform layer: \<open>detail::random_u64_range\<close> and \<open>Random::u64\<close>\<close>

definition random_u32_pair :: "64 word \<Rightarrow> 32 word \<times> 32 word" where
  "random_u32_pair u = (ucast u, ucast (drop_bit 32 u))"

text \<open>
  Lines 146 to 152: \<open>uint64_t t = -range; if(t >= range) { t -= range; if(t >= range)
  t %= range; }\<close>. The modulo is the one statement of the function that can fault.
  The parameter \<open>range\<close> is written \<open>rng\<close> throughout.
\<close>

definition rejection_threshold :: "64 word \<Rightarrow> fault + 64 word" where
  "rejection_threshold rng =
     (let t = - rng in
      if t \<ge> rng then
        (let t = t - rng in
         if t \<ge> rng then
           (if rng = 0 then Inl DivideByZero else Inr (t mod rng))
         else Inr t)
      else Inr t)"

text \<open>
  \<open>while(l < t) { x = get(); m = x * range; l = m; }\<close> over the 128-bit product \<open>m\<close>
  and its low half \<open>l\<close>. The callback \<open>get\<close> is a function on its own state; the loop
  has no bound, so it is a partial function: \<open>None\<close> is a loop that never ends.
\<close>

partial_function (option) random_u64_range_loop ::
  "('s \<Rightarrow> 64 word \<times> 's) \<Rightarrow> 64 word \<Rightarrow> 64 word \<Rightarrow> 128 word \<Rightarrow> 64 word \<Rightarrow> 's
    \<Rightarrow> (128 word \<times> 's) option" where
  "random_u64_range_loop get rng t m l s =
     (if l < t then
        (case get s of (x, s') \<Rightarrow>
          (let m' = (ucast x :: 128 word) * ucast rng
           in random_u64_range_loop get rng t m' (ucast m') s'))
      else Some (m, s))"

definition random_u64_range ::
  "('s \<Rightarrow> 64 word \<times> 's) \<Rightarrow> 64 word \<Rightarrow> 's \<Rightarrow> (fault + 64 word \<times> 's) option" where
  "random_u64_range get rng s =
     (case get s of (x, s1) \<Rightarrow>
       (let m = (ucast x :: 128 word) * ucast rng;
            l = (ucast m :: 64 word)
        in if l < rng then
             (case rejection_threshold rng of
                Inl f \<Rightarrow> Some (Inl f)
              | Inr t \<Rightarrow>
                  (case random_u64_range_loop get rng t m l s1 of
                     None \<Rightarrow> None
                   | Some (m', s') \<Rightarrow> Some (Inr (ucast (drop_bit 64 m'), s'))))
           else Some (Inr (ucast (drop_bit 64 m), s1))))"

text \<open>\<open>Random::bits()\<close> and \<open>Random::u64(range)\<close>, which passes the engine as the callback.\<close>

definition bits :: "Lehmer64Fast \<Rightarrow> 64 word \<times> Lehmer64Fast" where
  "bits e = operator_call e"

definition u64_range :: "Lehmer64Fast \<Rightarrow> 64 word \<Rightarrow> (fault + 64 word \<times> Lehmer64Fast) option" where
  "u64_range e rng = random_u64_range operator_call rng e"

text \<open>
  Names for the statements about the bounded draw: the output of the draw number \<open>n\<close>
  (from 0) of an engine, the two halves of the 128-bit product \<open>x * range\<close>, and the
  test under which a draw \<open>x\<close> is thrown away.
\<close>

definition nth_draw :: "Lehmer64Fast \<Rightarrow> nat \<Rightarrow> 64 word" where
  "nth_draw e n = fst (operator_call ((Advance ^^ n) e))"

definition product_low :: "64 word \<Rightarrow> 64 word \<Rightarrow> 64 word" where
  "product_low x rng = ucast ((ucast x :: 128 word) * ucast rng)"

definition product_high :: "64 word \<Rightarrow> 64 word \<Rightarrow> 64 word" where
  "product_high x rng = ucast (drop_bit 64 ((ucast x :: 128 word) * ucast rng))"

definition rejected :: "64 word \<Rightarrow> 64 word \<Rightarrow> bool" where
  "rejected rng x \<longleftrightarrow> unat (product_low x rng) < 2 ^ 64 mod unat rng"

text \<open>
  A callback for the template other than the engine: a callable without state that returns
  0 at every call, such as \<open>[]{ return uint64_t(0); }\<close>.
\<close>

definition always_zero :: "unit \<Rightarrow> 64 word \<times> unit" where
  "always_zero s = (0, s)"

section \<open>The multilinear hash: \<open>detail::hash_impl_t\<close>\<close>

text \<open>
  The lambda \<open>next_num\<close> adds \<open>INC\<close> to the captured \<open>w\<close> and returns it: the pair of the
  value returned and the new \<open>w\<close>.
\<close>

definition next_num :: "64 word \<Rightarrow> 64 word \<Rightarrow> 64 word \<times> 64 word" where
  "next_num INC w = (w + INC, w + INC)"

text \<open>
  The inner loop over the input: \<open>sum += next_num() * u\<close>; it returns \<open>sum\<close> (here
  \<open>sm\<close>) and \<open>w\<close>.
\<close>

fun hash_input :: "64 word \<Rightarrow> 32 word list \<Rightarrow> 64 word \<Rightarrow> 64 word \<Rightarrow> 64 word \<times> 64 word" where
  "hash_input INC [] sm w = (sm, w)"
| "hash_input INC (u # us) sm w =
     (case next_num INC w of (n, w') \<Rightarrow> hash_input INC us (sm + n * ucast u) w')"

text \<open>The outer loop over the \<open>L\<close> output slots from \<open>itA\<close> to \<open>itB\<close>.\<close>

fun hash_outputs :: "64 word \<Rightarrow> 32 word list \<Rightarrow> nat \<Rightarrow> 64 word \<Rightarrow> 32 word list" where
  "hash_outputs INC us 0 w = []"
| "hash_outputs INC us (Suc L) w =
     (case next_num INC w of (n0, w0) \<Rightarrow>
       (case hash_input INC us n0 w0 of (sm, w1) \<Rightarrow>
         (case next_num INC w1 of (n1, w2) \<Rightarrow>
            (ucast (drop_bit 32 (sm + n1 * 1)) :: 32 word) # hash_outputs INC us L w2)))"

definition hash_impl_t :: "64 word \<Rightarrow> 64 word \<Rightarrow> 32 word list \<Rightarrow> nat \<Rightarrow> 32 word list" where
  "hash_impl_t INC INIT us L = hash_outputs INC us L INIT"

definition hash_implA :: "32 word list \<Rightarrow> nat \<Rightarrow> 32 word list" where
  "hash_implA = hash_impl_t 0x9e3779b97f4a7c15 0x3423da0b87484307"

definition hash_implB :: "32 word list \<Rightarrow> nat \<Rightarrow> 32 word list" where
  "hash_implB = hash_impl_t 0x9e3779b97f4a7c15 0xdf8b06c40fa44478"

text \<open>The accumulator after \<open>k\<close> advances from \<open>INIT\<close>.\<close>

definition weyl :: "64 word \<Rightarrow> 64 word \<Rightarrow> nat \<Rightarrow> 64 word" where
  "weyl INC INIT k = INIT + of_nat k * INC"

section \<open>The alias table: \<open>AliasTable\<close>\<close>

text \<open>
  The members \<open>shr_\<close> (an \<open>int\<close>), \<open>a_\<close> and \<open>p_\<close> (vectors of \<open>uint32_t\<close>), written
  \<open>shr_m\<close>, \<open>a_m\<close> and \<open>p_m\<close>; a default-constructed table has \<open>shr_ = 0\<close> and two
  empty vectors.
\<close>

record AliasTable =
  shr_m :: int
  a_m :: "32 word list"
  p_m :: "32 word list"

definition AliasTable_default :: AliasTable where
  "AliasTable_default = \<lparr>shr_m = 0, a_m = [], p_m = []\<rparr>"

text \<open>
  \<open>RoundUp\<close> at \<open>T = size_t\<close>: \<open>for(; y < x; y *= 2, ++k)\<close> from \<open>y = 2\<close>, \<open>k = 1\<close>. The
  product wraps at 64 bits, so the loop does not end for every \<open>x\<close>.
\<close>

partial_function (option) RoundUp_loop :: "64 word \<Rightarrow> 64 word \<Rightarrow> int \<Rightarrow> (64 word \<times> int) option" where
  "RoundUp_loop x y k = (if y < x then RoundUp_loop x (y * 2) (k + 1) else Some (y, k))"

definition RoundUp :: "64 word \<Rightarrow> (64 word \<times> int) option" where
  "RoundUp x = RoundUp_loop x 2 1"

text \<open>\<open>std::vector::resize(n, z)\<close>: cut to \<open>n\<close> elements, or filled up to \<open>n\<close> with \<open>z\<close>.\<close>

definition resize :: "nat \<Rightarrow> 'a \<Rightarrow> 'a list \<Rightarrow> 'a list" where
  "resize n z xs = take n xs @ replicate (n - length xs) z"

text \<open>
  \<open>CreateInplace\<close>, lines 474 to 483: the assertion on the size, \<open>RoundUp\<close>, the three
  \<open>resize\<close> calls and \<open>shr_\<close>. The weights are \<open>double\<close>s; these lines only count and pad
  them, so their type is left open and \<open>zero\<close> stands for \<open>0.0\<close>. \<open>ndebug\<close> says whether
  the build defines \<open>NDEBUG\<close>, which compiles \<open>assert\<close> away. The result is the table and
  the padded vector as the rest of the function (lines 485 to 538, the filling of the
  table in floating point) finds them; those lines write elements of \<open>a_\<close>, \<open>p_\<close> and
  \<open>*v\<close> at indices below \<open>sz\<close> and leave the sizes and \<open>shr_\<close> as set here.
\<close>

definition CreateInplace_sizing ::
  "bool \<Rightarrow> AliasTable \<Rightarrow> 'd list \<Rightarrow> 'd \<Rightarrow> (fault + AliasTable \<times> 'd list) option" where
  "CreateInplace_sizing ndebug tbl v zero =
     (if \<not> ndebug \<and> \<not> length v \<le> 4294967295 then Some (Inl AssertionFailed)
      else
        (case RoundUp (of_nat (length v)) of
           None \<Rightarrow> None
         | Some ru \<Rightarrow>
             (let sz = unat (fst ru)
              in Some (Inr (tbl\<lparr>a_m := resize sz 0 (a_m tbl),
                                 p_m := resize sz 0 (p_m tbl),
                                 shr_m := 64 - snd ru\<rparr>,
                            resize sz zero v)))))"

text \<open>
  \<open>Get\<close>: \<open>yx = random_u32_pair(u >> shr_)\<close>, then
  \<open>(yx.first < p_[yx.second]) ? yx.second : a_[yx.second]\<close>, converted to \<open>int\<close>.
\<close>

definition Get :: "AliasTable \<Rightarrow> 64 word \<Rightarrow> fault + int" where
  "Get tbl u =
     (if shr_m tbl < 0 \<or> 64 \<le> shr_m tbl then Inl ShiftOutOfRange
      else
        (let yx = random_u32_pair (drop_bit (nat (shr_m tbl)) u)
         in if length (p_m tbl) \<le> unat (snd yx) then Inl IndexOutOfRange
            else if fst yx < p_m tbl ! unat (snd yx) then Inr (sint (snd yx))
            else if length (a_m tbl) \<le> unat (snd yx) then Inl IndexOutOfRange
            else Inr (sint (a_m tbl ! unat (snd yx)))))"

text \<open>
  \<open>Get\<close> as claim C1 words it, for comparison with the source's \<open>Get\<close>: the slot is
  the draw shifted right by \<open>shr_\<close> (its top bits), the comparison value is the low 32
  bits of the draw.
\<close>

definition Get_as_claimed :: "AliasTable \<Rightarrow> 64 word \<Rightarrow> int" where
  "Get_as_claimed tbl u =
     (let slot = unat (drop_bit (nat (shr_m tbl)) u);
          cmp = (ucast u :: 32 word)
      in if cmp < p_m tbl ! slot then int slot else sint (a_m tbl ! slot))"

section \<open>Engine: properties\<close>

lemma unat_hi64: "unat (ucast (drop_bit 64 (w :: 128 word)) :: 64 word) = unat w div 2 ^ 64"
proof -
  have "unat w < 2 ^ 128"
    using unsigned_less [of w] by simp
  then have "unat w div 2 ^ 64 < 2 ^ 64"
    by (simp add: less_mult_imp_div_less)
  moreover have "unat (drop_bit 64 w) = unat w div 2 ^ 64"
    unfolding unat_drop_bit_eq by (simp add: drop_bit_eq_div)
  ultimately show ?thesis
    by (simp add: unsigned_ucast_eq take_bit_eq_mod)
qed

lemma unat_lo64: "unat (ucast (w :: 128 word) :: 64 word) = unat w mod 2 ^ 64"
  by (simp add: unsigned_ucast_eq take_bit_eq_mod)

lemma unat_up64: "unat (ucast (x :: 64 word) :: 128 word) = unat x"
  using unsigned_less [of x, where ?'a = nat]
  by (simp add: unsigned_ucast_eq take_bit_eq_mod)

lemma unat_up32: "unat (ucast (x :: 32 word) :: 64 word) = unat x"
  using unsigned_less [of x, where ?'a = nat]
  by (simp add: unsigned_ucast_eq take_bit_eq_mod)

lemma odd_MCG_MULT: "odd (ucast MCG_MULT :: state_type)"
  by (simp add: MCG_MULT_def)

lemma odd_SetState: "odd (state_m (SetState e state))"
  by (simp add: SetState_def even_or_iff)

lemma odd_Advance: "odd (state_m e) \<Longrightarrow> odd (state_m (Advance e))"
  by (simp add: Advance_def odd_MCG_MULT)

lemma odd_Discard_loop: "odd (state_m e) \<Longrightarrow> odd (state_m (Discard_loop k count e))"
proof (induction k count e rule: Discard_loop.induct)
  case (1 k count e)
  show ?case
  proof (cases "k < count")
    case True
    with 1 have "odd (state_m (Discard_loop (k + 1) count (Advance e)))"
      by (simp add: odd_Advance)
    with True show ?thesis
      by (subst Discard_loop.simps) simp
  next
    case False
    with 1 show ?thesis
      by (subst Discard_loop.simps) simp
  qed
qed

lemma reachable_odd: "reachable e \<Longrightarrow> odd (state_m e)"
proof (induction rule: reachable.induct)
  case (r_call e)
  then show ?case
    by (simp add: operator_call_def Let_def odd_Advance)
qed (simp_all add: odd_SetState odd_Advance odd_Discard_loop Discard_def Seed_def
      Lehmer64Fast_of_state_def Lehmer64Fast_of_seed_def)

lemma Seed_overwrites: "Seed e1 seed = Seed e2 seed"
  by (cases e1, cases e2) (simp add: Seed_def SetState_def)

text \<open>
  C7. A draw replaces the state \<open>s\<close> by \<open>s * 0xda942042e4dd58b5 mod 2^128\<close> and returns the
  top 64 bits of the new state; the engine after the draw is the engine after \<open>Advance\<close>,
  whose only member is the state.
\<close>

theorem operator_call_advances_then_top_bits:
  "snd (operator_call e) = Advance e
   \<and> snd (operator_call e) = \<lparr>state_m = state_m e * 0xda942042e4dd58b5\<rparr>
   \<and> unat (state_m (snd (operator_call e))) = (unat (state_m e) * 0xda942042e4dd58b5) mod 2 ^ 128
   \<and> unat (fst (operator_call e)) = unat (state_m (snd (operator_call e))) div 2 ^ 64"
proof -
  have a: "snd (operator_call e) = Advance e"
    by (simp add: operator_call_def Let_def)
  have b: "Advance e = \<lparr>state_m = state_m e * 0xda942042e4dd58b5\<rparr>"
    by (cases e) (simp add: Advance_def MCG_MULT_def)
  have c: "unat (state_m e * 0xda942042e4dd58b5) = (unat (state_m e) * 0xda942042e4dd58b5) mod 2 ^ 128"
    by (simp add: unat_word_ariths)
  have "fst (operator_call e) = ucast (drop_bit 64 (state_m (Advance e)))"
    by (simp add: operator_call_def Let_def STYPE_BITS_def RTYPE_BITS_def)
  then have d: "unat (fst (operator_call e)) = unat (state_m (Advance e)) div 2 ^ 64"
    by (simp only: unat_hi64)
  from a b c d show ?thesis
    by simp
qed

text \<open>
  C8. The stored state is always odd: \<open>SetState\<close>, and with it \<open>Seed\<close> and every
  constructor, sets the low bit; \<open>Advance\<close>, \<open>operator()\<close> and \<open>Discard\<close> keep an odd
  state odd; so the low bit is 1 in every engine a program can reach.
\<close>

theorem engine_state_always_odd:
  "bit (state_m (SetState e0 state)) 0
   \<and> bit (state_m (Seed e0 seed)) 0
   \<and> bit (state_m (Lehmer64Fast_of_state state)) 0
   \<and> bit (state_m (Lehmer64Fast_of_seed seed)) 0
   \<and> bit (state_m Lehmer64Fast_default) 0
   \<and> (bit (state_m e) 0 \<longrightarrow>
        bit (state_m (Advance e)) 0
        \<and> bit (state_m (snd (operator_call e))) 0
        \<and> bit (state_m (Discard e count)) 0)
   \<and> (reachable e \<longrightarrow> bit (state_m e) 0)"
  by (simp add: bit_0 odd_SetState odd_Advance odd_Discard_loop reachable_odd Seed_def
      Lehmer64Fast_of_state_def Lehmer64Fast_of_seed_def Lehmer64Fast_default_def
      Discard_def operator_call_def Let_def)

theorem engine_state_always_odd_witness:
  "reachable (Discard (snd (operator_call (Lehmer64Fast_of_state 42))) 3)
   \<and> bit (state_m (Discard (snd (operator_call (Lehmer64Fast_of_state 42))) 3)) 0
   \<and> bit (state_m (Lehmer64Fast_of_state 42)) 0
   \<and> bit (state_m (Advance (Lehmer64Fast_of_state 42))) 0"
proof -
  let ?e = "Discard (snd (operator_call (Lehmer64Fast_of_state 42))) 3"
  have r: "reachable ?e"
    by (intro reachable.intros)
  have b: "bit (state_m (Lehmer64Fast_of_state 42)) 0"
    by (simp add: Lehmer64Fast_of_state_def SetState_def bit_0 even_or_iff)
  from r engine_state_always_odd [of _ _ _ ?e] have "bit (state_m ?e) 0"
    by blast
  moreover from b engine_state_always_odd [of _ _ _ "Lehmer64Fast_of_state 42"]
  have "bit (state_m (Advance (Lehmer64Fast_of_state 42))) 0"
    by blast
  ultimately show ?thesis
    using r b by simp
qed

text \<open>
  C9. Two engines seeded with the same four 32-bit values, whatever they held before and
  whether seeded by \<open>Seed\<close> or by the seeding constructor, give the same first \<open>k\<close>
  outputs and are left in the same state.
\<close>

theorem same_seed_same_draws:
  "draws k (Seed e1 seed) = draws k (Seed e2 seed)
   \<and> draws k (Lehmer64Fast_of_seed seed) = draws k (Seed e1 seed)"
proof -
  have "Seed e1 seed = Seed e2 seed"
    by (rule Seed_overwrites)
  moreover have "Lehmer64Fast_of_seed seed = Seed e1 seed"
    unfolding Lehmer64Fast_of_seed_def by (rule Seed_overwrites)
  ultimately show ?thesis
    by simp
qed

section \<open>The multilinear hash: the closed form of the loops\<close>

lemma hash_input_closed:
  "hash_input INC us sm w =
     (sm + (\<Sum>i<length us. (w + of_nat (Suc i) * INC) * ucast (us ! i)),
      w + of_nat (length us) * INC)"
proof (induction us arbitrary: sm w)
  case Nil
  show ?case by simp
next
  case (Cons u us)
  let ?f = "\<lambda>i. (w + of_nat (Suc i) * INC) * ucast ((u # us) ! i)"
  have "(\<Sum>i<Suc (length us). ?f i) = ?f 0 + (\<Sum>i<length us. ?f (Suc i))"
    by (rule sum.lessThan_Suc_shift)
  also have "?f 0 = (w + INC) * ucast u"
    by simp
  also have "(\<Sum>i<length us. ?f (Suc i))
      = (\<Sum>i<length us. (w + INC + of_nat (Suc i) * INC) * ucast (us ! i))"
    by (rule sum.cong) (simp_all add: algebra_simps)
  finally have "(\<Sum>i<length (u # us). ?f i)
      = (w + INC) * ucast u
        + (\<Sum>i<length us. (w + INC + of_nat (Suc i) * INC) * ucast (us ! i))"
    by simp
  moreover have "hash_input INC (u # us) sm w
      = (sm + (w + INC) * ucast u
          + (\<Sum>i<length us. (w + INC + of_nat (Suc i) * INC) * ucast (us ! i)),
         w + INC + of_nat (length us) * INC)"
    by (simp add: Cons.IH next_num_def)
  ultimately show ?case
    by (simp add: algebra_simps)
qed

lemma weyl_shift: "weyl INC (w + of_nat a * INC) k = weyl INC w (a + k)"
  by (simp add: weyl_def algebra_simps)

lemma hash_outputs_closed:
  "hash_outputs INC us L w =
     map (\<lambda>j. ucast (drop_bit 32
            (weyl INC w (j * (length us + 2) + 1)
             + (\<Sum>i<length us. weyl INC w (j * (length us + 2) + 2 + i) * ucast (us ! i))
             + weyl INC w (j * (length us + 2) + length us + 2) * 1))) [0..<L]"
proof (induction L arbitrary: w)
  case 0
  show ?case by simp
next
  case (Suc L)
  let ?n = "length us"
  let ?slot = "\<lambda>w j. (ucast (drop_bit 32
            (weyl INC w (j * (?n + 2) + 1)
             + (\<Sum>i<?n. weyl INC w (j * (?n + 2) + 2 + i) * ucast (us ! i))
             + weyl INC w (j * (?n + 2) + ?n + 2) * 1)) :: 32 word)"
  let ?w2 = "w + of_nat (?n + 2) * INC"
  have step: "hash_outputs INC us (Suc L) w = ?slot w 0 # hash_outputs INC us L ?w2"
    by (simp add: next_num_def hash_input_closed weyl_def algebra_simps)
  have shift: "?slot ?w2 j = ?slot w (Suc j)" for j
    by (simp only: weyl_shift) (simp add: algebra_simps)
  have "map (?slot w) [0..<Suc L] = ?slot w 0 # map (\<lambda>j. ?slot w (Suc j)) [0..<L]"
    by (simp only: upt_conv_Cons [of 0 "Suc L"] map_Suc_upt [symmetric] list.map map_map o_def)
  with step shift Suc.IH [of ?w2] show ?case
    by simp
qed

section \<open>The bounded draw: the threshold and the loop\<close>

lemma unat_neg64: "r \<noteq> 0 \<Longrightarrow> unat (- r :: 64 word) = 2 ^ 64 - unat r"
proof -
  assume nz: "r \<noteq> 0"
  have "unat (0 - r) = (if unat r \<le> unat (0 :: 64 word) then unat (0 :: 64 word) - unat r
     else unat (0 :: 64 word) + 2 ^ LENGTH(64) - unat r)"
    by (rule unat_sub_if')
  moreover from nz have "unat r \<noteq> 0"
    by (simp add: unat_eq_0)
  ultimately show ?thesis
    by simp
qed

lemma rejection_threshold_value:
  assumes "rng \<noteq> 0"
  shows "\<exists>t. rejection_threshold rng = Inr t \<and> unat t = 2 ^ 64 mod unat rng"
proof -
  let ?R = "unat rng"
  define t0 where "t0 = - rng"
  define t1 where "t1 = t0 - rng"
  have lt: "?R < 2 ^ 64"
    using unsigned_less [of rng, where ?'a = nat] by simp
  have neg: "unat t0 = 2 ^ 64 - ?R"
    unfolding t0_def using assms by (rule unat_neg64)
  have unfold: "rejection_threshold rng =
      (if t0 \<ge> rng then (if t1 \<ge> rng then Inr (t1 mod rng) else Inr t1) else Inr t0)"
    using assms by (simp only: rejection_threshold_def Let_def t0_def t1_def if_False)
  have m1: "2 ^ 64 mod ?R = (2 ^ 64 - ?R) mod ?R"
    using lt by (simp add: le_mod_geq)
  show ?thesis
  proof (cases "t0 \<ge> rng")
    case False
    then have "2 ^ 64 - ?R < ?R"
      by (simp add: word_le_nat_alt neg)
    with m1 have "2 ^ 64 mod ?R = 2 ^ 64 - ?R"
      by simp
    with False neg unfold show ?thesis
      by simp
  next
    case True
    then have "unat t1 = unat t0 - ?R"
      unfolding t1_def by (rule unat_sub)
    then have sub: "unat t1 = 2 ^ 64 - ?R - ?R"
      by (simp only: neg)
    from True have "?R \<le> 2 ^ 64 - ?R"
      by (simp add: word_le_nat_alt neg)
    then have m2: "(2 ^ 64 - ?R) mod ?R = (2 ^ 64 - ?R - ?R) mod ?R"
      by (simp add: le_mod_geq)
    show ?thesis
    proof (cases "t1 \<ge> rng")
      case False
      then have "2 ^ 64 - ?R - ?R < ?R"
        by (simp add: word_le_nat_alt sub)
      with m1 m2 have "2 ^ 64 mod ?R = 2 ^ 64 - ?R - ?R"
        by simp
      with True False sub unfold show ?thesis
        by simp
    next
      case ge2: True
      have "unat (t1 mod rng) = (2 ^ 64 - ?R - ?R) mod ?R"
        by (simp only: unat_mod sub)
      with m1 m2 have "unat (t1 mod rng) = 2 ^ 64 mod ?R"
        by simp
      with True ge2 unfold show ?thesis
        by simp
    qed
  qed
qed

lemma unat_product128:
  "unat ((ucast (x :: 64 word) :: 128 word) * ucast (r :: 64 word)) = unat x * unat r"
proof -
  have x: "unat x < 2 ^ 64" and r: "unat r < 2 ^ 64"
    using unsigned_less [of x, where ?'a = nat] unsigned_less [of r, where ?'a = nat]
    by simp_all
  then have "unat x * unat r < 2 ^ 64 * 2 ^ 64"
    by (intro mult_strict_mono) simp_all
  then have "unat x * unat r < 2 ^ 128"
    by simp
  then show ?thesis
    by (simp add: unat_word_ariths unat_up64)
qed

lemma unat_product_low: "unat (product_low x r) = unat x * unat r mod 2 ^ 64"
  unfolding product_low_def by (simp only: unat_lo64 unat_product128)

lemma unat_product_high: "unat (product_high x r) = unat x * unat r div 2 ^ 64"
  unfolding product_high_def by (simp only: unat_hi64 unat_product128)

lemma product_high_less: "r \<noteq> 0 \<Longrightarrow> product_high x r < r"
proof -
  assume "r \<noteq> 0"
  then have "0 < unat r"
    by (simp add: unat_gt_0)
  moreover have "unat x < 2 ^ 64"
    using unsigned_less [of x, where ?'a = nat] by simp
  ultimately have "unat x * unat r < unat r * 2 ^ 64"
    by (simp add: mult.commute)
  then have "unat x * unat r div 2 ^ 64 < unat r"
    by (rule less_mult_imp_div_less)
  then show ?thesis
    by (simp add: word_less_nat_alt unat_product_high)
qed

lemma loop_stops_at_first:
  assumes "\<forall>j<n. product_low (fst (get (((\<lambda>s. snd (get s)) ^^ j) s))) rng < t"
    and "\<not> product_low (fst (get (((\<lambda>s. snd (get s)) ^^ n) s))) rng < t"
    and "l < t"
  shows "random_u64_range_loop get rng t m l s =
     Some (ucast (fst (get (((\<lambda>s. snd (get s)) ^^ n) s))) * ucast rng,
           ((\<lambda>s. snd (get s)) ^^ Suc n) s)"
  using assms
proof (induction n arbitrary: s m l)
  case 0
  obtain x s' where g: "get s = (x, s')"
    by (cases "get s")
  with 0 have stop: "\<not> (ucast ((ucast x :: 128 word) * ucast rng) :: 64 word) < t"
    by (simp add: product_low_def)
  have "random_u64_range_loop get rng t m l s =
      random_u64_range_loop get rng t (ucast x * ucast rng) (ucast ((ucast x :: 128 word) * ucast rng)) s'"
    using 0(3) g by (subst random_u64_range_loop.simps) (simp add: Let_def)
  also have "\<dots> = Some (ucast x * ucast rng, s')"
    using stop by (subst random_u64_range_loop.simps) simp
  finally show ?case
    using g by simp
next
  case (Suc n)
  obtain x s' where g: "get s = (x, s')"
    by (cases "get s")
  from Suc.prems(1) have "product_low (fst (get (((\<lambda>s. snd (get s)) ^^ 0) s))) rng < t"
    by blast
  with g have l': "(ucast ((ucast x :: 128 word) * ucast rng) :: 64 word) < t"
    by (simp add: product_low_def)
  have shift: "((\<lambda>s. snd (get s)) ^^ j) s' = ((\<lambda>s. snd (get s)) ^^ Suc j) s" for j
    by (simp only: funpow_Suc_right o_def g snd_conv)
  have "random_u64_range_loop get rng t m l s =
      random_u64_range_loop get rng t (ucast x * ucast rng) (ucast ((ucast x :: 128 word) * ucast rng)) s'"
    using Suc.prems(3) g by (subst random_u64_range_loop.simps) (simp add: Let_def)
  also have "\<dots> = Some (ucast (fst (get (((\<lambda>s. snd (get s)) ^^ n) s'))) * ucast rng,
           ((\<lambda>s. snd (get s)) ^^ Suc n) s')"
  proof (rule Suc.IH)
    show "\<forall>j<n. product_low (fst (get (((\<lambda>s. snd (get s)) ^^ j) s'))) rng < t"
      unfolding shift using Suc.prems(1) Suc_mono by blast
    show "\<not> product_low (fst (get (((\<lambda>s. snd (get s)) ^^ n) s'))) rng < t"
      unfolding shift by (rule Suc.prems(2))
    show "(ucast ((ucast x :: 128 word) * ucast rng) :: 64 word) < t"
      by (rule l')
  qed
  finally show ?case
    by (simp only: shift)
qed

lemma rejected_iff:
  assumes "unat t = 2 ^ 64 mod unat rng"
  shows "rejected rng x \<longleftrightarrow> product_low x rng < t"
  by (simp add: rejected_def word_less_nat_alt assms)

text \<open>
  A draw is rejected exactly when it fails both tests of the source, \<open>l < range\<close> before
  the threshold is computed and \<open>l < t\<close> in the loop.
\<close>

lemma rejected_iff_both_tests:
  assumes "rng \<noteq> 0" and "rejection_threshold rng = Inr t"
  shows "rejected rng x \<longleftrightarrow> product_low x rng < rng \<and> product_low x rng < t"
proof -
  from rejection_threshold_value [OF assms(1)] assms(2)
  have t: "unat t = 2 ^ 64 mod unat rng"
    by simp
  from assms(1) have "0 < unat rng"
    by (simp add: unat_gt_0)
  then have "unat t < unat rng"
    by (simp add: t)
  then have "t < rng"
    by (simp add: word_less_nat_alt)
  then show ?thesis
    using rejected_iff [OF t, of x] by auto
qed

lemma random_u64_range_first_accepted:
  assumes nz: "rng \<noteq> 0"
    and acc: "\<not> rejected rng (fst (get (((\<lambda>s. snd (get s)) ^^ n) s)))"
    and rej: "\<forall>j<n. rejected rng (fst (get (((\<lambda>s. snd (get s)) ^^ j) s)))"
  shows "random_u64_range get rng s =
     Some (Inr (product_high (fst (get (((\<lambda>s. snd (get s)) ^^ n) s))) rng,
                ((\<lambda>s. snd (get s)) ^^ Suc n) s))"
proof -
  let ?next = "\<lambda>s. snd (get s)"
  from rejection_threshold_value [OF nz] obtain t
    where thr: "rejection_threshold rng = Inr t" and t: "unat t = 2 ^ 64 mod unat rng"
    by blast
  from nz have "0 < unat rng"
    by (simp add: unat_gt_0)
  then have "unat t < unat rng"
    by (simp add: t)
  then have t_less: "t < rng"
    by (simp add: word_less_nat_alt)
  note ri = rejected_iff [OF t]
  obtain x s1 where g: "get s = (x, s1)"
    by (cases "get s")
  define m where "m = (ucast x :: 128 word) * ucast rng"
  have l: "(ucast m :: 64 word) = product_low x rng"
    by (simp add: m_def product_low_def)
  have h: "(ucast (drop_bit 64 m) :: 64 word) = product_high x rng"
    by (simp add: m_def product_high_def)
  have unfold: "random_u64_range get rng s =
       (if product_low x rng < rng then
          (case random_u64_range_loop get rng t m (product_low x rng) s1 of
             None \<Rightarrow> None
           | Some (m', s') \<Rightarrow> Some (Inr (ucast (drop_bit 64 m'), s')))
        else Some (Inr (product_high x rng, s1)))"
    by (simp add: random_u64_range_def g Let_def m_def [symmetric] l h thr)
  show ?thesis
  proof (cases n)
    case 0
    with acc g have stop: "\<not> product_low x rng < t"
      by (simp add: ri)
    then have "random_u64_range_loop get rng t m (product_low x rng) s1 = Some (m, s1)"
      by (subst random_u64_range_loop.simps) simp
    with unfold h 0 g show ?thesis
      by simp
  next
    case (Suc k)
    with rej have "rejected rng (fst (get ((?next ^^ 0) s)))"
      by blast
    with g have l_t: "product_low x rng < t"
      by (simp add: ri)
    with t_less have l_r: "product_low x rng < rng"
      by simp
    have shift: "(?next ^^ j) s1 = (?next ^^ Suc j) s" for j
      by (simp only: funpow_Suc_right o_def g snd_conv)
    have "random_u64_range_loop get rng t m (product_low x rng) s1 =
        Some (ucast (fst (get ((?next ^^ k) s1))) * ucast rng, (?next ^^ Suc k) s1)"
    proof (rule loop_stops_at_first)
      show "\<forall>j<k. product_low (fst (get ((?next ^^ j) s1))) rng < t"
        unfolding shift ri [symmetric] using rej Suc Suc_mono by blast
      show "\<not> product_low (fst (get ((?next ^^ k) s1))) rng < t"
        unfolding shift ri [symmetric] using acc Suc by simp
      show "product_low x rng < t"
        by (rule l_t)
    qed
    with unfold l_r show ?thesis
      by (simp add: shift Suc product_high_def del: funpow.simps)
  qed
qed

section \<open>The orbit of the multiplicative generator modulo \<open>2^128\<close>\<close>

text \<open>
  The multiplier is 5 modulo 8, so its powers \<open>a^d\<close> satisfy
  \<open>a^(2^e * q) = 1 + 2^(e+2)\<close> modulo \<open>2^(e+3)\<close> for odd \<open>q\<close>: the multiplier has order
  \<open>2^126\<close> modulo \<open>2^128\<close>, and the states reached from an odd state \<open>s\<close> are all the
  residues congruent to \<open>s\<close> modulo 4. Every 64-bit value is therefore the output of
  some later draw, and the rejection loop of the bounded draw ends.
\<close>

lemma five_pow_odd_mod8: "odd q \<Longrightarrow> (5::nat) ^ q mod 8 = 5"
proof -
  assume "odd q"
  then obtain k where q: "q = 2 * k + 1"
    by (auto elim: oddE)
  have "(25::nat) ^ k mod 8 = (25 mod 8) ^ k mod 8"
    by (simp only: power_mod)
  then have k1: "(25::nat) ^ k mod 8 = 1"
    by simp
  have "(5::nat) ^ q = 5 * 25 ^ k"
    by (simp add: q power_mult)
  then have "(5::nat) ^ q mod 8 = (5 * (25 ^ k mod 8)) mod 8"
    by (simp only: mod_mult_right_eq)
  with k1 show ?thesis
    by simp
qed

lemma square_lift:
  fixes x :: nat
  assumes "x mod 2 ^ (e + 3) = 1 + 2 ^ (e + 2)"
  shows "x ^ 2 mod 2 ^ (e + 4) = 1 + 2 ^ (e + 3)"
proof -
  define c where "c = x div 2 ^ (e + 3)"
  define P :: nat where "P = 2 ^ e"
  have "x = c * 2 ^ (e + 3) + x mod 2 ^ (e + 3)"
    by (simp only: c_def div_mult_mod_eq)
  with assms have x: "x = 1 + 4 * P + 8 * P * c"
    by (simp add: P_def power_add)
  have "x ^ 2 = (1 + 8 * P) + 16 * P * (c + P * (1 + 2 * c) ^ 2)"
    unfolding x by (simp add: power2_eq_square algebra_simps)
  then have "x ^ 2 mod (16 * P) = (1 + 8 * P) mod (16 * P)"
    by (simp only: mod_mult_self2)
  moreover have "0 < P"
    by (simp add: P_def)
  then have "1 + 8 * P < 16 * P"
    by simp
  ultimately have "x ^ 2 mod (16 * P) = 1 + 8 * P"
    by simp
  then show ?thesis
    by (simp add: P_def power_add mult.commute)
qed

lemma lifting_exponent:
  fixes a :: nat
  assumes a: "a mod 8 = 5" and q: "odd q"
  shows "a ^ (2 ^ e * q) mod 2 ^ (e + 3) = 1 + 2 ^ (e + 2)"
proof (induction e)
  case 0
  have "a ^ q mod 8 = (a mod 8) ^ q mod 8"
    by (simp only: power_mod)
  with a q show ?case
    by (simp add: five_pow_odd_mod8)
next
  case (Suc e)
  have "a ^ (2 ^ Suc e * q) = (a ^ (2 ^ e * q)) ^ 2"
    by (simp add: power_mult [symmetric] mult.commute mult.left_commute)
  moreover have "Suc e + 3 = e + 4" and "Suc e + 2 = e + 3"
    by simp_all
  ultimately show ?case
    using square_lift [OF Suc.IH] by (simp only:)
qed


lemma two_power_odd_decomp:
  fixes d :: nat
  assumes "0 < d"
  shows "\<exists>e q. odd q \<and> d = 2 ^ e * q"
  using assms
proof (induction d rule: less_induct)
  case (less d)
  show ?case
  proof (cases "even d")
    case False
    then have "odd d \<and> d = 2 ^ 0 * d"
      by simp
    then show ?thesis
      by blast
  next
    case True
    then obtain h where h: "d = 2 * h"
      by (auto elim: evenE)
    with less.prems have "h < d" and "0 < h"
      by simp_all
    with less.IH obtain e q where "odd q" and "h = 2 ^ e * q"
      by blast
    with h have "odd q \<and> d = 2 ^ Suc e * q"
      by simp
    then show ?thesis
      by blast
  qed
qed

lemma power_not_one:
  fixes a :: nat
  assumes a: "a mod 8 = 5" and d: "0 < d" "d < 2 ^ 126"
  shows "a ^ d mod 2 ^ 128 \<noteq> 1"
proof
  assume one: "a ^ d mod 2 ^ 128 = 1"
  from d(1) obtain e q where q: "odd q" and de: "d = 2 ^ e * q"
    using two_power_odd_decomp by blast
  from q have "0 < q"
    by (auto elim: oddE)
  then have "(2::nat) ^ e \<le> d"
    by (simp add: de)
  with d(2) have "(2::nat) ^ e < 2 ^ 126"
    by simp
  then have "e < 126"
    by (simp only: power_strict_increasing_iff [of 2 e 126] one_less_numeral_iff semiring_norm)
  then have "e + 3 \<le> 128"
    by simp
  then have "(2::nat) ^ (e + 3) dvd 2 ^ 128"
    by (rule le_imp_power_dvd)
  then have "a ^ d mod 2 ^ 128 mod 2 ^ (e + 3) = a ^ d mod 2 ^ (e + 3)"
    by (rule mod_mod_cancel)
  with one have "a ^ d mod 2 ^ (e + 3) = 1 mod 2 ^ (e + 3)"
    by simp
  moreover have "(1::nat) < 2 ^ (e + 3)"
    by (rule one_less_power) simp_all
  ultimately have "a ^ d mod 2 ^ (e + 3) = 1"
    by simp
  moreover have "a ^ d mod 2 ^ (e + 3) = 1 + 2 ^ (e + 2)"
    unfolding de using a q by (rule lifting_exponent)
  ultimately show False
    by simp
qed

lemma power_period:
  fixes a :: nat
  assumes a: "a mod 8 = 5"
  shows "a ^ (2 ^ 126) mod 2 ^ 128 = 1"
proof -
  have "a ^ (2 ^ 126 * 1) mod 2 ^ (126 + 3) = 1 + 2 ^ (126 + 2)"
    using a by (rule lifting_exponent) simp
  then have l: "a ^ (2 ^ 126) mod 2 ^ 129 = 1 + 2 ^ 128"
    by simp
  have "(2::nat) ^ 128 dvd 2 ^ 129"
    by (rule le_imp_power_dvd) simp
  then have "a ^ (2 ^ 126) mod 2 ^ 129 mod 2 ^ 128 = a ^ (2 ^ 126) mod 2 ^ 128"
    by (rule mod_mod_cancel)
  with l have "a ^ (2 ^ 126) mod 2 ^ 128 = (1 + 2 ^ 128) mod 2 ^ 128"
    by simp
  then show ?thesis
    by simp
qed


lemma orbit_no_collision:
  fixes a s :: nat
  assumes a: "a mod 8 = 5" and s: "odd s"
    and ij: "i < j" "j < 2 ^ 126"
    and eq: "s * a ^ i mod 2 ^ 128 = s * a ^ j mod 2 ^ 128"
  shows False
proof -
  define d where "d = j - i"
  define u where "u = s * a ^ i"
  from ij have d: "0 < d" "d < 2 ^ 126" and j: "j = i + d"
    by (simp_all add: d_def)
  from a have "odd a"
    by presburger
  with s have "odd u"
    by (simp add: u_def)
  then have "coprime 2 u"
    by (simp add: coprime_left_2_iff_odd)
  then have "coprime 2 u \<or> (128::nat) = 0"
    by (rule disjI1)
  then have cop: "coprime (2 ^ 128) u"
    by (simp only: coprime_power_left_iff)
  have "0 < a"
    using \<open>odd a\<close> by (auto elim: oddE)
  then have ge: "1 \<le> a ^ d"
    by simp
  then have "u * 1 \<le> u * a ^ d"
    by (rule mult_le_mono2)
  moreover from eq have "u * a ^ d mod 2 ^ 128 = u * 1 mod 2 ^ 128"
    by (simp add: u_def j power_add mult.assoc)
  ultimately have "2 ^ 128 dvd u * a ^ d - u * 1"
    by (simp only: mod_eq_dvd_iff_nat)
  then have "2 ^ 128 dvd u * (a ^ d - 1)"
    by (simp only: diff_mult_distrib2)
  with cop have "2 ^ 128 dvd a ^ d - 1"
    by (simp only: coprime_dvd_mult_right_iff)
  with ge have "a ^ d mod 2 ^ 128 = 1 mod 2 ^ 128"
    by (simp only: mod_eq_dvd_iff_nat)
  then have "a ^ d mod 2 ^ 128 = 1"
    by simp
  with power_not_one [OF a d] show False
    by simp
qed

lemma orbit_inj:
  fixes a s :: nat
  assumes a: "a mod 8 = 5" and s: "odd s"
  shows "inj_on (\<lambda>i. s * a ^ i mod 2 ^ 128) {0..<2 ^ 126}"
proof (rule inj_onI)
  fix i j :: nat
  assume i: "i \<in> {0..<2 ^ 126}" and j: "j \<in> {0..<2 ^ 126}"
    and eq: "s * a ^ i mod 2 ^ 128 = s * a ^ j mod 2 ^ 128"
  show "i = j"
  proof (rule ccontr)
    assume "i \<noteq> j"
    then consider "i < j" | "j < i"
      by linarith
    then show False
    proof cases
      case 1
      with orbit_no_collision [OF a s _ _ eq] j show False
        by simp
    next
      case 2
      with orbit_no_collision [OF a s _ _ eq [symmetric]] i show False
        by simp
    qed
  qed
qed

lemma residue_class_card:
  fixes r :: nat
  assumes "r < 4"
  shows "finite {x. x < 2 ^ 128 \<and> x mod 4 = r}"
    and "card {x. x < 2 ^ 128 \<and> x mod 4 = r} = 2 ^ 126"
proof -
  let ?B = "{x. x < 2 ^ 128 \<and> x mod 4 = r}"
  have img: "?B = (\<lambda>k. 4 * k + r) ` {0..<2 ^ 126}"
  proof (rule set_eqI, rule iffI)
    fix x
    assume "x \<in> ?B"
    then have x: "x < 2 ^ 128" "x mod 4 = r"
      by simp_all
    then have "x = 4 * (x div 4) + r"
      by presburger
    moreover from x(1) have "x div 4 < 2 ^ 126"
      by simp
    ultimately show "x \<in> (\<lambda>k. 4 * k + r) ` {0..<2 ^ 126}"
      by (intro image_eqI [where x = "x div 4"]) simp_all
  next
    fix x
    assume "x \<in> (\<lambda>k. 4 * k + r) ` {0..<2 ^ 126}"
    then obtain k where "k < 2 ^ 126" "x = 4 * k + r"
      by auto
    with assms show "x \<in> ?B"
      by simp
  qed
  have inj: "inj_on (\<lambda>k. 4 * k + r) {0..<2 ^ 126}"
    by (rule inj_onI) simp
  show "finite ?B"
    unfolding img by simp
  show "card ?B = 2 ^ 126"
    unfolding img by (simp only: card_image [OF inj] card_atLeastLessThan diff_zero)
qed

lemma orbit_covers:
  fixes a s T :: nat
  assumes a: "a mod 8 = 5" and s: "odd s"
    and T: "T < 2 ^ 128" "T mod 4 = s mod 4"
  shows "\<exists>i. 0 < i \<and> s * a ^ i mod 2 ^ 128 = T"
proof -
  let ?f = "\<lambda>i. s * a ^ i mod 2 ^ 128"
  let ?B = "{x. x < 2 ^ 128 \<and> x mod 4 = s mod 4}"
  have a4: "a mod 4 = 1"
    using a by presburger
  have "?f i mod 4 = s mod 4" for i
  proof -
    have "(4::nat) dvd 2 ^ 128"
      by simp
    then have "?f i mod 4 = s * a ^ i mod 4"
      by (rule mod_mod_cancel)
    also have "\<dots> = s * ((a mod 4) ^ i mod 4) mod 4"
      by (simp only: power_mod mod_mult_right_eq)
    also have "\<dots> = s mod 4"
      by (simp add: a4)
    finally show ?thesis .
  qed
  then have sub: "?f ` {0..<2 ^ 126} \<subseteq> ?B"
    by auto
  have "card (?f ` {0..<2 ^ 126}) = card {0..<(2::nat) ^ 126}"
    using orbit_inj [OF a s] by (rule card_image)
  also have "\<dots> = 2 ^ 126"
    by (simp only: card_atLeastLessThan diff_zero)
  also have "\<dots> = card ?B"
    by (rule residue_class_card(2) [symmetric]) simp
  finally have cardeq: "card (?f ` {0..<2 ^ 126}) = card ?B" .
  have fin: "finite ?B"
    by (rule residue_class_card(1)) simp
  from fin sub cardeq have "?f ` {0..<2 ^ 126} = ?B"
    by (rule card_subset_eq)
  moreover from T have "T \<in> ?B"
    by simp
  ultimately have "T \<in> ?f ` {0..<2 ^ 126}"
    by (simp only:)
  then obtain i where i: "T = ?f i"
    by (rule imageE)
  show ?thesis
  proof (cases "i = 0")
    case False
    with i show ?thesis
      by blast
  next
    case True
    have "s * a ^ (2 ^ 126) mod 2 ^ 128 = s * (a ^ (2 ^ 126) mod 2 ^ 128) mod 2 ^ 128"
      by (simp only: mod_mult_right_eq)
    also have "\<dots> = s mod 2 ^ 128"
      by (simp only: power_period [OF a] mult_1_right)
    also from i True have "\<dots> = T"
      by (simp only: power_0 mult_1_right)
    finally have "0 < (2::nat) ^ 126 \<and> s * a ^ (2 ^ 126) mod 2 ^ 128 = T"
      by simp
    then show ?thesis
      by blast
  qed
qed

subsection \<open>The draws of the engine along its orbit\<close>

lemma snd_operator_call: "snd (operator_call e) = Advance e"
  by (simp add: operator_call_def Let_def)

lemma next_is_Advance: "(\<lambda>s. snd (operator_call s)) = Advance"
  by (rule ext) (rule snd_operator_call)

lemma unat_power128: "unat ((x :: 128 word) ^ n) = unat x ^ n mod 2 ^ 128"
proof (induction n)
  case 0
  show ?case by simp
next
  case (Suc n)
  have "unat (x ^ Suc n) = unat x * unat (x ^ n) mod 2 ^ 128"
    by (simp add: unat_word_ariths)
  also have "\<dots> = unat x * (unat x ^ n mod 2 ^ 128) mod 2 ^ 128"
    by (simp only: Suc.IH)
  also have "\<dots> = unat x ^ Suc n mod 2 ^ 128"
    by (simp only: mod_mult_right_eq power_Suc)
  finally show ?case .
qed

lemma state_after_Advances:
  "state_m ((Advance ^^ n) e) = state_m e * ucast MCG_MULT ^ n"
  by (induction n) (simp_all add: Advance_def mult.assoc mult.commute)

lemma unat_state_after_Advances:
  "unat (state_m ((Advance ^^ n) e)) = unat (state_m e) * 0xda942042e4dd58b5 ^ n mod 2 ^ 128"
proof -
  have m: "unat (ucast MCG_MULT :: 128 word) = 0xda942042e4dd58b5"
    by (simp add: MCG_MULT_def)
  have "unat (state_m ((Advance ^^ n) e))
      = unat (state_m e) * unat ((ucast MCG_MULT :: 128 word) ^ n) mod 2 ^ 128"
    by (simp only: state_after_Advances unat_word_ariths) simp
  also have "\<dots> = unat (state_m e) * (0xda942042e4dd58b5 ^ n mod 2 ^ 128) mod 2 ^ 128"
    by (simp only: unat_power128 m)
  also have "\<dots> = unat (state_m e) * 0xda942042e4dd58b5 ^ n mod 2 ^ 128"
    by (simp only: mod_mult_right_eq)
  finally show ?thesis .
qed

lemma unat_nth_draw:
  "unat (nth_draw e n) = unat (state_m ((Advance ^^ Suc n) e)) div 2 ^ 64"
proof -
  have "nth_draw e n = ucast (drop_bit 64 (state_m ((Advance ^^ Suc n) e)))"
    by (simp add: nth_draw_def operator_call_def Let_def STYPE_BITS_def RTYPE_BITS_def)
  then show ?thesis
    by (simp only: unat_hi64)
qed

lemma odd_unat_iff: "odd (unat (w :: 128 word)) \<longleftrightarrow> odd w"
  by (simp only: bit_0 [symmetric] bit_unsigned_iff) simp

lemma some_draw_is_one:
  assumes "odd (state_m e)"
  shows "\<exists>n. nth_draw e n = 1"
proof -
  let ?s = "unat (state_m e)"
  let ?T = "2 ^ 64 + ?s mod 4"
  from assms have s: "odd ?s"
    using odd_unat_iff by blast
  have a: "(0xda942042e4dd58b5 :: nat) mod 8 = 5"
    by simp
  have T1: "?T < 2 ^ 128"
  proof -
    have "?s mod 4 < 4"
      by simp
    then show ?thesis
      by simp
  qed
  have T2: "?T mod 4 = ?s mod 4"
  proof -
    have "(2::nat) ^ 64 = 4 * 2 ^ 62"
      by simp
    then have "?T mod 4 = (?s mod 4 + 4 * 2 ^ 62) mod 4"
      by (simp only: add.commute)
    also have "\<dots> = ?s mod 4 mod 4"
      by (rule mod_mult_self2)
    finally show ?thesis
      by simp
  qed
  from orbit_covers [OF a s T1 T2] obtain i
    where i: "0 < i" "?s * 0xda942042e4dd58b5 ^ i mod 2 ^ 128 = ?T"
    by blast
  then obtain n where n: "i = Suc n"
    by (cases i) simp_all
  have "unat (nth_draw e n) = ?T div 2 ^ 64"
    by (simp only: unat_nth_draw unat_state_after_Advances n [symmetric] i(2))
  also have "\<dots> = 1"
  proof -
    have "?s mod 4 < 4"
      by simp
    then show ?thesis
      by simp
  qed
  finally have "nth_draw e n = 1"
    by (simp add: word_unat_eq_iff)
  then show ?thesis
    by blast
qed

lemma one_not_rejected: "rng \<noteq> 0 \<Longrightarrow> \<not> rejected rng 1"
proof -
  assume "rng \<noteq> 0"
  then have "0 < unat rng"
    by (simp add: unat_gt_0)
  then have "2 ^ 64 mod unat rng < unat rng"
    by simp
  moreover have "unat rng < 2 ^ 64"
    using unsigned_less [of rng, where ?'a = nat] by simp
  then have "unat (product_low 1 rng) = unat rng"
    by (simp add: unat_product_low)
  ultimately show ?thesis
    by (simp add: rejected_def)
qed

lemma first_accepted_draw:
  assumes "rng \<noteq> 0" and "odd (state_m e)"
  shows "\<exists>n. \<not> rejected rng (nth_draw e n) \<and> (\<forall>j<n. rejected rng (nth_draw e j))"
proof -
  from some_draw_is_one [OF assms(2)] one_not_rejected [OF assms(1)]
  have "\<exists>n. \<not> rejected rng (nth_draw e n)"
    by metis
  then show ?thesis
    by (subst (asm) exists_least_iff) blast
qed

lemma u64_range_result:
  assumes "rng \<noteq> 0" and "odd (state_m e)"
  shows "\<exists>n. u64_range e rng =
            Some (Inr (product_high (nth_draw e n) rng, (Advance ^^ Suc n) e))
          \<and> \<not> rejected rng (nth_draw e n)
          \<and> (\<forall>j<n. rejected rng (nth_draw e j))"
proof -
  from first_accepted_draw [OF assms] obtain n
    where n: "\<not> rejected rng (nth_draw e n)" "\<forall>j<n. rejected rng (nth_draw e j)"
    by blast
  have acc: "\<not> rejected rng (fst (operator_call (((\<lambda>s. snd (operator_call s)) ^^ n) e)))"
    using n(1) unfolding nth_draw_def next_is_Advance .
  have rej: "\<forall>j<n. rejected rng (fst (operator_call (((\<lambda>s. snd (operator_call s)) ^^ j) e)))"
    using n(2) unfolding nth_draw_def next_is_Advance .
  have "u64_range e rng =
      Some (Inr (product_high (fst (operator_call (((\<lambda>s. snd (operator_call s)) ^^ n) e))) rng,
                 ((\<lambda>s. snd (operator_call s)) ^^ Suc n) e))"
    unfolding u64_range_def using assms(1) acc rej by (rule random_u64_range_first_accepted)
  then have "u64_range e rng = Some (Inr (product_high (nth_draw e n) rng, (Advance ^^ Suc n) e))"
    by (simp only: next_is_Advance nth_draw_def [symmetric])
  with n show ?thesis
    by blast
qed

lemma u64_range_default_3:
  "u64_range Lehmer64Fast_default 3 =
     Some (Inr (1, \<lparr>state_m = 0x880cefbd2d45a339e1e724b0bbfb54e1\<rparr>))"
  by (simp add: u64_range_def random_u64_range_def operator_call_def Advance_def
      Lehmer64Fast_default_def Lehmer64Fast_of_state_def SetState_def MCG_MULT_def
      STYPE_BITS_def RTYPE_BITS_def Let_def)

subsection \<open>The bounded draw with \<open>range = 0\<close>, and with other callbacks\<close>

lemma random_u64_range_zero:
  "random_u64_range get 0 s = Some (Inr (0, snd (get s)))"
  by (cases "get s") (simp add: random_u64_range_def Let_def)

lemma random_u64_range_no_fault:
  "random_u64_range get rng s \<noteq> Some (Inl f)"
proof (cases "rng = 0")
  case True
  then show ?thesis
    by (simp add: random_u64_range_zero)
next
  case False
  then obtain t where "rejection_threshold rng = Inr t"
    using rejection_threshold_value by blast
  then show ?thesis
    by (cases "get s")
      (auto simp add: random_u64_range_def Let_def split: option.splits prod.splits)
qed

text \<open>
  The callback decides whether the loop ends: with a callback that always returns 0 and
  \<open>range = 3\<close> the low half of the product is 0, below the threshold 1, at every draw.
\<close>

lemma loop_zero_callback:
  assumes "random_u64_range_loop get rng t m l s = Some r"
  shows "\<not> (get = (\<lambda>s. (0, s)) \<and> l = 0 \<and> 0 < t)"
proof (rule random_u64_range_loop.raw_induct
    [where P = "\<lambda>get rng t m l s y. \<not> (get = (\<lambda>s. (0, s)) \<and> l = 0 \<and> 0 < t)", OF _ assms])
  fix loop :: "('a \<Rightarrow> 64 word \<times> 'a) \<Rightarrow> 64 word \<Rightarrow> 64 word \<Rightarrow> 128 word \<Rightarrow> 64 word \<Rightarrow> 'a
      \<Rightarrow> (128 word \<times> 'a) option"
  fix get rng t m l s y
  assume IH: "\<And>get rng t m l s y. loop get rng t m l s = Some y \<Longrightarrow>
      \<not> (get = (\<lambda>s. (0, s)) \<and> l = 0 \<and> 0 < t)"
  assume eq: "(if l < t
      then case get s of
           (x, s') \<Rightarrow>
             let m' = ucast x * ucast rng
             in loop get rng t m' (ucast m') s'
      else Some (m, s)) = Some y"
  show "\<not> (get = (\<lambda>s. (0, s)) \<and> l = 0 \<and> 0 < t)"
  proof
    assume A: "get = (\<lambda>s. (0, s)) \<and> l = 0 \<and> 0 < t"
    with eq have "loop get rng t 0 0 s = Some y"
      by (simp add: Let_def)
    from IH [OF this] A show False
      by simp
  qed
qed

lemma random_u64_range_zero_callback:
  "random_u64_range (\<lambda>s. (0, s)) 3 s = None"
proof -
  have t: "rejection_threshold 3 = Inr 1"
    using rejection_threshold_value [of 3] by (auto simp add: word_unat_eq_iff)
  have "random_u64_range_loop (\<lambda>s. (0, s)) 3 1 0 0 s = None"
  proof (cases "random_u64_range_loop (\<lambda>s. (0, s)) 3 1 0 0 s")
    case (Some r)
    then show ?thesis
      using loop_zero_callback [of "\<lambda>s. (0, s)" 3 1 0 0 s r] by simp
  qed simp
  then show ?thesis
    by (simp add: random_u64_range_def t)
qed

text \<open>
  In general: once a draw has been rejected, the loop returns only if a later draw is
  not rejected, so for \<open>range \<ge> 1\<close> the function fails to return exactly when the
  callback yields rejected draws for ever.
\<close>

lemma loop_never_returns:
  assumes "random_u64_range_loop get rng t m l s = Some r"
  shows "\<not> (l < t \<and> (\<forall>j. product_low (fst (get (((\<lambda>s. snd (get s)) ^^ j) s))) rng < t))"
proof (rule random_u64_range_loop.raw_induct
    [where P = "\<lambda>get rng t m l s y.
        \<not> (l < t \<and> (\<forall>j. product_low (fst (get (((\<lambda>s. snd (get s)) ^^ j) s))) rng < t))",
      OF _ assms])
  fix loop :: "('a \<Rightarrow> 64 word \<times> 'a) \<Rightarrow> 64 word \<Rightarrow> 64 word \<Rightarrow> 128 word \<Rightarrow> 64 word \<Rightarrow> 'a
      \<Rightarrow> (128 word \<times> 'a) option"
  fix get rng t m l s y
  assume IH: "\<And>get rng t m l s y. loop get rng t m l s = Some y \<Longrightarrow>
      \<not> (l < t \<and> (\<forall>j. product_low (fst (get (((\<lambda>s. snd (get s)) ^^ j) s))) rng < t))"
  assume eq: "(if l < t
      then case get s of
           (x, s') \<Rightarrow>
             let m' = ucast x * ucast rng
             in loop get rng t m' (ucast m') s'
      else Some (m, s)) = Some y"
  show "\<not> (l < t \<and> (\<forall>j. product_low (fst (get (((\<lambda>s. snd (get s)) ^^ j) s))) rng < t))"
  proof
    assume A: "l < t \<and> (\<forall>j. product_low (fst (get (((\<lambda>s. snd (get s)) ^^ j) s))) rng < t)"
    obtain x s' where g: "get s = (x, s')"
      by (cases "get s")
    from A have all: "product_low (fst (get (((\<lambda>s. snd (get s)) ^^ j) s))) rng < t" for j
      by blast
    have shift: "((\<lambda>s. snd (get s)) ^^ j) s' = ((\<lambda>s. snd (get s)) ^^ Suc j) s" for j
      by (simp only: funpow_Suc_right o_def g snd_conv)
    from all [of 0] g have l': "product_low x rng < t"
      by simp
    from A eq g have "loop get rng t (ucast x * ucast rng) (product_low x rng) s' = Some y"
      by (simp add: Let_def product_low_def)
    from IH [OF this] have
      "\<not> (product_low x rng < t
          \<and> (\<forall>j. product_low (fst (get (((\<lambda>s. snd (get s)) ^^ j) s'))) rng < t))" .
    moreover have "\<forall>j. product_low (fst (get (((\<lambda>s. snd (get s)) ^^ j) s'))) rng < t"
      unfolding shift using all by blast
    ultimately show False
      using l' by blast
  qed
qed

lemma random_u64_range_None_iff:
  assumes nz: "rng \<noteq> 0"
  shows "random_u64_range get rng s = None
     \<longleftrightarrow> (\<forall>n. rejected rng (fst (get (((\<lambda>s. snd (get s)) ^^ n) s))))"
proof
  let ?x = "\<lambda>n. fst (get (((\<lambda>s. snd (get s)) ^^ n) s))"
  assume none: "random_u64_range get rng s = None"
  show "\<forall>n. rejected rng (?x n)"
  proof (rule ccontr)
    assume "\<not> (\<forall>n. rejected rng (?x n))"
    then have "\<exists>n. \<not> rejected rng (?x n)"
      by blast
    then obtain n where "\<not> rejected rng (?x n)" "\<forall>j<n. rejected rng (?x j)"
      by (subst (asm) exists_least_iff) blast
    with nz have "random_u64_range get rng s
        = Some (Inr (product_high (?x n) rng, ((\<lambda>s. snd (get s)) ^^ Suc n) s))"
      by (rule random_u64_range_first_accepted)
    with none show False
      by simp
  qed
next
  let ?x = "\<lambda>n. fst (get (((\<lambda>s. snd (get s)) ^^ n) s))"
  assume all: "\<forall>n. rejected rng (?x n)"
  from rejection_threshold_value [OF nz] obtain t
    where thr: "rejection_threshold rng = Inr t" and t: "unat t = 2 ^ 64 mod unat rng"
    by blast
  note ri = rejected_iff [OF t]
  note both = rejected_iff_both_tests [OF nz thr]
  obtain x s1 where g: "get s = (x, s1)"
    by (cases "get s")
  from all have "rejected rng (?x 0)"
    by blast
  with g have r0: "rejected rng x"
    by simp
  then have l_r: "product_low x rng < rng" and l_t: "product_low x rng < t"
    by (simp_all add: both)
  have shift: "((\<lambda>s. snd (get s)) ^^ j) s1 = ((\<lambda>s. snd (get s)) ^^ Suc j) s" for j
    by (simp only: funpow_Suc_right o_def g snd_conv)
  have rest: "\<forall>j. product_low (fst (get (((\<lambda>s. snd (get s)) ^^ j) s1))) rng < t"
    unfolding shift ri [symmetric] using all by blast
  have "random_u64_range_loop get rng t (ucast x * ucast rng) (product_low x rng) s1 = None"
  proof (cases "random_u64_range_loop get rng t (ucast x * ucast rng) (product_low x rng) s1")
    case (Some r)
    from loop_never_returns [OF this] l_t rest show ?thesis
      by blast
  qed simp
  with l_r show "random_u64_range get rng s = None"
    by (simp add: random_u64_range_def g Let_def thr product_low_def [symmetric])
qed

lemma always_zero_eq: "always_zero = (\<lambda>s. (0, s))"
  by (rule ext) (simp add: always_zero_def)

lemma always_zero_rejected: "rejected 3 (fst (always_zero s))"
  by (simp add: always_zero_def rejected_def unat_product_low)

section \<open>The claims about the hash and the bounded draw\<close>

text \<open>
  C5. The hash output has \<open>L\<close> slots, and slot \<open>j\<close> is the top 32 bits of the 64-bit sum
  of one accumulator value, the products of the next \<open>n\<close> accumulator values with the
  \<open>n\<close> inputs, and one more accumulator value times 1. The accumulator values are
  consecutive members of the sequence \<open>INIT + k * INC\<close> (mod \<open>2^64\<close>), \<open>k = 1, 2, ...\<close>,
  numbered through all slots without a restart: slot \<open>j\<close> uses the members
  \<open>j * (n + 2) + 1\<close> to \<open>j * (n + 2) + n + 2\<close>. The increment of both instances
  \<open>hash_implA\<close> and \<open>hash_implB\<close> is odd.
\<close>

theorem hash_impl_t_multilinear:
  "hash_impl_t INC INIT us L =
     map (\<lambda>j. ucast (drop_bit 32
            (weyl INC INIT (j * (length us + 2) + 1)
             + (\<Sum>i<length us. weyl INC INIT (j * (length us + 2) + 2 + i) * ucast (us ! i))
             + weyl INC INIT (j * (length us + 2) + length us + 2) * 1))) [0..<L]
   \<and> length (hash_impl_t INC INIT us L) = L
   \<and> weyl INC INIT 0 = INIT
   \<and> (\<forall>k. weyl INC INIT (Suc k) = weyl INC INIT k + INC)
   \<and> hash_implA = hash_impl_t 0x9e3779b97f4a7c15 0x3423da0b87484307
   \<and> hash_implB = hash_impl_t 0x9e3779b97f4a7c15 0xdf8b06c40fa44478
   \<and> odd (0x9e3779b97f4a7c15 :: 64 word)"
proof -
  have "length (hash_impl_t INC INIT us L) = L"
    unfolding hash_impl_t_def hash_outputs_closed by simp
  moreover have "weyl INC INIT (Suc k) = weyl INC INIT k + INC" for k
    by (simp add: weyl_def algebra_simps)
  ultimately show ?thesis
    unfolding hash_implA_def hash_implB_def
    by (simp add: hash_impl_t_def hash_outputs_closed weyl_def)
qed

text \<open>
  C3. For \<open>range \<ge> 1\<close> the threshold block does not fault and leaves \<open>t\<close> equal to
  \<open>2^64 mod range\<close>.
\<close>

theorem rejection_threshold_is_mod:
  "rng \<noteq> 0 \<Longrightarrow> \<exists>t. rejection_threshold rng = Inr t \<and> unat t = 2 ^ 64 mod unat rng"
  by (rule rejection_threshold_value)

theorem rejection_threshold_is_mod_witness:
  "(3 :: 64 word) \<noteq> 0 \<and> rejection_threshold 3 = Inr 1
   \<and> (\<exists>t. rejection_threshold 3 = Inr t \<and> unat t = 1) \<and> (2 :: nat) ^ 64 mod 3 = 1"
proof -
  have nz: "(3 :: 64 word) \<noteq> 0"
    by simp
  have m: "(2 :: nat) ^ 64 mod 3 = 1"
    by simp
  from rejection_threshold_is_mod [OF nz] obtain t
    where t: "rejection_threshold 3 = Inr t" "unat t = 2 ^ 64 mod unat (3 :: 64 word)"
    by blast
  from t(2) have "unat t = 1"
    by simp
  then have "t = 1"
    by (simp add: word_unat_eq_iff)
  with t(1) nz m show ?thesis
    by simp
qed

text \<open>
  C2. For \<open>range > 0\<close> and every engine a program can hold, \<open>u64(range)\<close> returns: it
  stops at the first draw \<open>x\<close> that is not rejected, having made \<open>n + 1\<close> draws, and
  returns the high 64 bits of the 128-bit product \<open>x * range\<close>, a value below \<open>range\<close>.
\<close>

theorem u64_range_below_range:
  assumes "rng \<noteq> 0" and "reachable e"
  shows "\<exists>n. u64_range e rng =
            Some (Inr (product_high (nth_draw e n) rng, (Advance ^^ Suc n) e))
          \<and> product_high (nth_draw e n) rng < rng
          \<and> unat (product_high (nth_draw e n) rng) = unat (nth_draw e n) * unat rng div 2 ^ 64
          \<and> \<not> rejected rng (nth_draw e n)
          \<and> (\<forall>j<n. rejected rng (nth_draw e j))"
proof -
  from assms(2) have "odd (state_m e)"
    by (rule reachable_odd)
  with assms(1) obtain n where "u64_range e rng =
            Some (Inr (product_high (nth_draw e n) rng, (Advance ^^ Suc n) e))
          \<and> \<not> rejected rng (nth_draw e n)
          \<and> (\<forall>j<n. rejected rng (nth_draw e j))"
    using u64_range_result by blast
  moreover have "product_high (nth_draw e n) rng < rng"
    using assms(1) by (rule product_high_less)
  ultimately show ?thesis
    using unat_product_high by blast
qed

theorem u64_range_below_range_witness:
  "(3 :: 64 word) \<noteq> 0 \<and> reachable Lehmer64Fast_default
   \<and> (\<exists>n. u64_range Lehmer64Fast_default 3 =
            Some (Inr (product_high (nth_draw Lehmer64Fast_default n) 3,
                       (Advance ^^ Suc n) Lehmer64Fast_default))
          \<and> product_high (nth_draw Lehmer64Fast_default n) 3 < 3
          \<and> \<not> rejected 3 (nth_draw Lehmer64Fast_default n))
   \<and> u64_range Lehmer64Fast_default 3 =
       Some (Inr (1, \<lparr>state_m = 0x880cefbd2d45a339e1e724b0bbfb54e1\<rparr>))"
proof -
  have nz: "(3 :: 64 word) \<noteq> 0"
    by simp
  have r: "reachable Lehmer64Fast_default"
    unfolding Lehmer64Fast_default_def by (rule reachable.r_of_state)
  from u64_range_below_range [OF nz r] nz r u64_range_default_3 show ?thesis
    by blast
qed


text \<open>
  C4, as the code has it. With \<open>range = 0\<close> the bounded draw does not fail: it makes one
  draw and returns 0, leaving the engine advanced once.
\<close>

theorem u64_range_zero_returns_zero:
  "u64_range e 0 = Some (Inr (0, Advance e))"
  by (simp add: u64_range_def random_u64_range_zero snd_operator_call)

theorem u64_range_zero_counterexample:
  "u64_range Lehmer64Fast_default 0 =
     Some (Inr (0, \<lparr>state_m = 0x880cefbd2d45a339e1e724b0bbfb54e1\<rparr>))"
  by (simp add: u64_range_def random_u64_range_def operator_call_def Advance_def
      Lehmer64Fast_default_def Lehmer64Fast_of_state_def SetState_def MCG_MULT_def
      STYPE_BITS_def RTYPE_BITS_def Let_def)

text \<open>
  C10, as the code has it. The bounded draw never executes the modulo with \<open>range = 0\<close>:
  the threshold block faults exactly when \<open>range = 0\<close>, and no run of
  \<open>random_u64_range\<close>, with any callback and any \<open>range\<close>, ends in a fault. With
  \<open>range = 0\<close> it calls the callback once and returns 0. With \<open>range \<ge> 1\<close> it returns at
  the first draw of the callback that is not rejected, and does not return exactly when
  every draw is rejected; called on an engine, it returns for every \<open>range\<close>.
\<close>

theorem random_u64_range_never_divides_by_zero:
  "(\<forall>f. random_u64_range get rng s \<noteq> Some (Inl f))
   \<and> (rejection_threshold rng = Inl DivideByZero \<longleftrightarrow> rng = 0)
   \<and> random_u64_range get 0 s = Some (Inr (0, snd (get s)))
   \<and> (rng \<noteq> 0 \<longrightarrow>
        (random_u64_range get rng s = None
          \<longleftrightarrow> (\<forall>n. rejected rng (fst (get (((\<lambda>s. snd (get s)) ^^ n) s))))))
   \<and> (rng \<noteq> 0 \<longrightarrow>
        (\<forall>n. \<not> rejected rng (fst (get (((\<lambda>s. snd (get s)) ^^ n) s)))
              \<and> (\<forall>j<n. rejected rng (fst (get (((\<lambda>s. snd (get s)) ^^ j) s))))
          \<longrightarrow> random_u64_range get rng s =
                Some (Inr (product_high (fst (get (((\<lambda>s. snd (get s)) ^^ n) s))) rng,
                           ((\<lambda>s. snd (get s)) ^^ Suc n) s))))
   \<and> (reachable e \<longrightarrow> (\<exists>r n. u64_range e rng = Some (Inr (r, (Advance ^^ Suc n) e))))"
proof -
  have thr: "rejection_threshold rng = Inl DivideByZero \<longleftrightarrow> rng = 0"
  proof
    assume "rejection_threshold rng = Inl DivideByZero"
    then show "rng = 0"
      using rejection_threshold_value [of rng] by (cases "rng = 0") auto
  next
    assume "rng = 0"
    then show "rejection_threshold rng = Inl DivideByZero"
      by (simp add: rejection_threshold_def)
  qed
  have eng: "\<exists>r n. u64_range e rng = Some (Inr (r, (Advance ^^ Suc n) e))" if "reachable e"
  proof (cases "rng = 0")
    case True
    have "u64_range e 0 = Some (Inr (0, (Advance ^^ Suc 0) e))"
      by (simp add: u64_range_def random_u64_range_zero snd_operator_call)
    with True show ?thesis
      by blast
  next
    case False
    from that have "odd (state_m e)"
      by (rule reachable_odd)
    with False show ?thesis
      using u64_range_result by blast
  qed
  have none: "random_u64_range get rng s = None
          \<longleftrightarrow> (\<forall>n. rejected rng (fst (get (((\<lambda>s. snd (get s)) ^^ n) s))))" if "rng \<noteq> 0"
    using that by (rule random_u64_range_None_iff)
  have first: "random_u64_range get rng s =
                Some (Inr (product_high (fst (get (((\<lambda>s. snd (get s)) ^^ n) s))) rng,
                           ((\<lambda>s. snd (get s)) ^^ Suc n) s))"
    if "rng \<noteq> 0" "\<not> rejected rng (fst (get (((\<lambda>s. snd (get s)) ^^ n) s)))"
      "\<forall>j<n. rejected rng (fst (get (((\<lambda>s. snd (get s)) ^^ j) s)))" for n
    using that by (rule random_u64_range_first_accepted)
  have nf: "\<forall>f. random_u64_range get rng s \<noteq> Some (Inl f)"
    by (simp add: random_u64_range_no_fault)
  have z: "random_u64_range get 0 s = Some (Inr (0, snd (get s)))"
    by (rule random_u64_range_zero)
  from nf thr z none first eng show ?thesis
    by blast
qed


theorem random_u64_range_never_divides_by_zero_witness:
  "reachable (Lehmer64Fast_of_seed (1, 2, 3, 4))
   \<and> (\<exists>r n. u64_range (Lehmer64Fast_of_seed (1, 2, 3, 4)) 0 =
          Some (Inr (r, (Advance ^^ Suc n) (Lehmer64Fast_of_seed (1, 2, 3, 4)))))
   \<and> (\<exists>r n. u64_range (Lehmer64Fast_of_seed (1, 2, 3, 4)) 7 =
          Some (Inr (r, (Advance ^^ Suc n) (Lehmer64Fast_of_seed (1, 2, 3, 4)))))
   \<and> (3 :: 64 word) \<noteq> 0
   \<and> rejected 3 (fst (always_zero ()))
   \<and> random_u64_range always_zero 3 () = None
   \<and> \<not> rejected 3 (fst (operator_call Lehmer64Fast_default))
   \<and> random_u64_range operator_call 3 Lehmer64Fast_default =
       Some (Inr (product_high (fst (operator_call Lehmer64Fast_default)) 3,
                  snd (operator_call Lehmer64Fast_default)))"
proof -
  let ?e = "Lehmer64Fast_of_seed (1, 2, 3, 4)"
  have r: "reachable ?e"
    by (rule reachable.r_of_seed)
  have nz: "(3 :: 64 word) \<noteq> 0"
    by simp
  have rej: "\<forall>n. rejected 3 (fst (always_zero (((\<lambda>s. snd (always_zero s)) ^^ n) ())))"
    by (simp add: always_zero_rejected)
  have x0: "fst (operator_call Lehmer64Fast_default) = 0x880cefbd2d45a339"
    by (simp add: operator_call_def Advance_def Lehmer64Fast_default_def
        Lehmer64Fast_of_state_def SetState_def MCG_MULT_def STYPE_BITS_def RTYPE_BITS_def Let_def)
  have acc: "\<not> rejected 3 (fst (operator_call Lehmer64Fast_default))"
    by (simp add: x0 rejected_def unat_product_low)
  have a: "\<exists>r n. u64_range ?e 0 = Some (Inr (r, (Advance ^^ Suc n) ?e))"
    using r random_u64_range_never_divides_by_zero [of operator_call 0 ?e ?e] by blast
  have b: "\<exists>r n. u64_range ?e 7 = Some (Inr (r, (Advance ^^ Suc n) ?e))"
    using r random_u64_range_never_divides_by_zero [of operator_call 7 ?e ?e] by blast
  have c: "random_u64_range always_zero 3 () = None"
    using nz rej random_u64_range_never_divides_by_zero [of always_zero 3 "()" ?e] by blast
  have "\<not> rejected 3 (fst (operator_call (((\<lambda>s. snd (operator_call s)) ^^ 0) Lehmer64Fast_default)))
      \<and> (\<forall>j<0. rejected 3 (fst (operator_call (((\<lambda>s. snd (operator_call s)) ^^ j) Lehmer64Fast_default))))"
    using acc by simp
  with nz random_u64_range_never_divides_by_zero [of operator_call 3 Lehmer64Fast_default ?e]
  have "random_u64_range operator_call 3 Lehmer64Fast_default =
       Some (Inr (product_high (fst (operator_call (((\<lambda>s. snd (operator_call s)) ^^ 0) Lehmer64Fast_default))) 3,
                  ((\<lambda>s. snd (operator_call s)) ^^ Suc 0) Lehmer64Fast_default))"
    by blast
  then have d: "random_u64_range operator_call 3 Lehmer64Fast_default =
       Some (Inr (product_high (fst (operator_call Lehmer64Fast_default)) 3,
                  snd (operator_call Lehmer64Fast_default)))"
    by simp
  from r a b nz c d acc always_zero_rejected [of "()"] show ?thesis
    by simp
qed


text \<open>
  With the callback that always returns 0 and \<open>range = 3\<close>, the function does not return.
\<close>

theorem random_u64_range_not_total_counterexample:
  "random_u64_range always_zero 3 () = None"
  unfolding always_zero_eq by (rule random_u64_range_zero_callback)

section \<open>The alias table: sizing and query\<close>

lemma unat_two_power64: "j < 64 \<Longrightarrow> unat ((2 :: 64 word) ^ j) = 2 ^ j"
proof -
  assume "j < 64"
  then have "(2 :: nat) ^ j < 2 ^ 64"
    by (simp only: power_strict_increasing_iff [of 2 j 64] one_less_numeral_iff semiring_norm)
  then have "unat (of_nat (2 ^ j) :: 64 word) = 2 ^ j"
    by (simp only: unat_of_nat) simp
  then show ?thesis
    by simp
qed

lemma RoundUp_loop_returns:
  assumes "unat x \<le> 2 ^ 63" and "j \<le> 63"
  shows "\<exists>k. j \<le> k \<and> k \<le> 63
           \<and> RoundUp_loop x (2 ^ j) (int j) = Some (2 ^ k, int k)
           \<and> unat x \<le> 2 ^ k \<and> (k = j \<or> 2 ^ (k - 1) < unat x)"
  using assms(2)
proof (induction "63 - j" arbitrary: j)
  case 0
  then have j: "j = 63"
    by simp
  then have "unat ((2 :: 64 word) ^ j) = 2 ^ 63"
    by (simp add: unat_two_power64)
  with assms(1) have "\<not> (2 :: 64 word) ^ j < x"
    by (simp add: word_less_nat_alt)
  then have "RoundUp_loop x (2 ^ j) (int j) = Some (2 ^ j, int j)"
    by (subst RoundUp_loop.simps) simp
  with assms(1) j show ?case
    by auto
next
  case (Suc d)
  then have j: "j < 63"
    by simp
  then have u: "unat ((2 :: 64 word) ^ j) = 2 ^ j"
    by (simp add: unat_two_power64)
  show ?case
  proof (cases "(2 :: 64 word) ^ j < x")
    case False
    then have "RoundUp_loop x (2 ^ j) (int j) = Some (2 ^ j, int j)"
      by (subst RoundUp_loop.simps) simp
    moreover from False have "unat x \<le> 2 ^ j"
      by (simp add: word_less_nat_alt u)
    ultimately show ?thesis
      using j by auto
  next
    case True
    then have lt: "2 ^ j < unat x"
      by (simp add: word_less_nat_alt u)
    from Suc.hyps(2) j have "d = 63 - Suc j" and "Suc j \<le> 63"
      by simp_all
    with Suc.hyps(1) obtain k where k: "Suc j \<le> k" "k \<le> 63"
      "RoundUp_loop x (2 ^ Suc j) (int (Suc j)) = Some (2 ^ k, int k)"
      "unat x \<le> 2 ^ k" "k = Suc j \<or> 2 ^ (k - 1) < unat x"
      by blast
    have "RoundUp_loop x (2 ^ j) (int j) = RoundUp_loop x (2 ^ j * 2) (int j + 1)"
      using True by (subst RoundUp_loop.simps) simp
    also have "\<dots> = RoundUp_loop x (2 ^ Suc j) (int (Suc j))"
      by (simp add: mult.commute add.commute)
    finally have "RoundUp_loop x (2 ^ j) (int j) = Some (2 ^ k, int k)"
      by (simp only: k(3))
    moreover from k(5) lt have "2 ^ (k - 1) < unat x"
      by auto
    ultimately show ?thesis
      using k(1,2,4) by (intro exI [of _ k]) simp
  qed
qed

lemma RoundUp_returns:
  assumes "unat x \<le> 2 ^ 63"
  shows "\<exists>k. 1 \<le> k \<and> k \<le> 63 \<and> RoundUp x = Some (2 ^ k, int k)
           \<and> unat x \<le> 2 ^ k \<and> (k = 1 \<or> 2 ^ (k - 1) < unat x)"
  using RoundUp_loop_returns [OF assms, of 1] by (simp add: RoundUp_def)

lemma RoundUp_5: "RoundUp 5 = Some (8, 3)"
  unfolding RoundUp_def
  by (subst RoundUp_loop.simps, simp)+

lemma pow2_less_D: "(2 :: nat) ^ a < 2 ^ b \<Longrightarrow> a < b"
  by simp

lemma pow2_le_I: "a \<le> b \<Longrightarrow> (2 :: nat) ^ a \<le> 2 ^ b"
  by simp

lemma length_resize: "length (resize n z xs) = n"
  by (simp add: resize_def)

lemma resize_pads: "length xs \<le> n \<Longrightarrow> resize n z xs = xs @ replicate (n - length xs) z"
  by (simp add: resize_def)

lemma CreateInplace_sizing_result:
  assumes "length v \<le> 4294967295 \<or> (ndebug \<and> length v = 4294967296)"
  shows "\<exists>k. 1 \<le> k \<and> k \<le> 32 \<and> length v \<le> 2 ^ k \<and> (k = 1 \<or> 2 ^ (k - 1) < length v)
           \<and> CreateInplace_sizing ndebug tbl v zero =
               Some (Inr (\<lparr>shr_m = 64 - int k,
                            a_m = resize (2 ^ k) 0 (a_m tbl),
                            p_m = resize (2 ^ k) 0 (p_m tbl)\<rparr>,
                          v @ replicate (2 ^ k - length v) zero))"
proof -
  let ?x = "of_nat (length v) :: 64 word"
  from assms have n32: "length v \<le> 2 ^ 32"
    by auto
  then have "length v < 2 ^ 64"
    by simp
  then have ux: "unat ?x = length v"
    by (simp add: unat_of_nat)
  with n32 have "unat ?x \<le> 2 ^ 63"
    by simp
  from RoundUp_returns [OF this] obtain k where k: "1 \<le> k" "k \<le> 63"
    "RoundUp ?x = Some (2 ^ k, int k)" "unat ?x \<le> 2 ^ k" "k = 1 \<or> 2 ^ (k - 1) < unat ?x"
    by blast
  have k32: "k \<le> 32"
  proof (cases "k = 1")
    case True
    then show ?thesis by simp
  next
    case False
    with k(5) ux n32 have "(2 :: nat) ^ (k - 1) < 2 ^ 32"
      by simp
    then have "k - 1 < 32"
      by (rule pow2_less_D)
    then show ?thesis
      by simp
  qed
  from k(2) have sz: "unat ((2 :: 64 word) ^ k) = 2 ^ k"
    by (simp add: unat_two_power64)
  from assms have guard: "\<not> (\<not> ndebug \<and> \<not> length v \<le> 4294967295)"
    by auto
  have "CreateInplace_sizing ndebug tbl v zero =
      Some (Inr (tbl\<lparr>a_m := resize (2 ^ k) 0 (a_m tbl), p_m := resize (2 ^ k) 0 (p_m tbl),
                     shr_m := 64 - int k\<rparr>,
                 resize (2 ^ k) zero v))"
    using guard by (simp add: CreateInplace_sizing_def k(3) sz Let_def)
  moreover have "resize (2 ^ k) zero v = v @ replicate (2 ^ k - length v) zero"
    using k(4) ux by (simp add: resize_pads)
  moreover have "tbl\<lparr>a_m := resize (2 ^ k) 0 (a_m tbl), p_m := resize (2 ^ k) 0 (p_m tbl),
                     shr_m := 64 - int k\<rparr>
      = \<lparr>shr_m = 64 - int k, a_m = resize (2 ^ k) 0 (a_m tbl), p_m = resize (2 ^ k) 0 (p_m tbl)\<rparr>"
    by (cases tbl) simp
  ultimately show ?thesis
    using k(1,4,5) k32 ux by (intro exI [of _ k]) simp
qed

lemma drop_bit_beyond64: "64 \<le> n \<Longrightarrow> drop_bit n (u :: 64 word) = 0"
proof -
  assume "64 \<le> n"
  then have "(2 :: nat) ^ 64 \<le> 2 ^ n"
    by (rule pow2_le_I)
  moreover have "unat u < 2 ^ 64"
    using unsigned_less [of u, where ?'a = nat] by simp
  ultimately have "unat u div 2 ^ n = 0"
    by simp
  then have "unat (drop_bit n u) = 0"
    unfolding unat_drop_bit_eq by (simp add: drop_bit_eq_div)
  then show ?thesis
    by (simp only: unat_eq_0)
qed

lemma Get_reads_slot_zero:
  assumes "1 \<le> k" and "k \<le> 32" and "shr_m tbl = 64 - int k"
    and "length (p_m tbl) = 2 ^ k" and "length (a_m tbl) = 2 ^ k"
  shows "Get tbl u =
     Inr (if (ucast (drop_bit (64 - k) u) :: 32 word) < p_m tbl ! 0 then 0
          else sint (a_m tbl ! 0))"
proof -
  from assms(1,2) have sh: "nat (shr_m tbl) = 64 - k" and ok: "\<not> (shr_m tbl < 0 \<or> 64 \<le> shr_m tbl)"
    by (simp_all add: assms(3))
  have "drop_bit 32 (drop_bit (64 - k) u) = drop_bit (32 + (64 - k)) u"
    by (simp only: drop_bit_drop_bit add.commute)
  also from assms(2) have "\<dots> = 0"
    by (intro drop_bit_beyond64) simp
  finally have snd0: "snd (random_u32_pair (drop_bit (64 - k) u)) = 0"
    by (simp add: random_u32_pair_def)
  have fst: "fst (random_u32_pair (drop_bit (64 - k) u)) = ucast (drop_bit (64 - k) u)"
    by (simp add: random_u32_pair_def)
  have "0 < length (p_m tbl)" and "0 < length (a_m tbl)"
    by (simp_all add: assms(4,5))
  with ok show ?thesis
    by (simp add: Get_def Let_def sh snd0 fst)
qed

lemma replicate_8: "replicate 8 x = [x, x, x, x, x, x, x, x]"
  by (simp add: numeral_eq_Suc)

lemma replicate_4: "replicate 4 x = [x, x, x, x]"
  by (simp add: numeral_eq_Suc)

lemma replicate_3: "replicate 3 x = [x, x, x]"
  by (simp add: numeral_eq_Suc)

lemma CreateInplace_sizing_5:
  "CreateInplace_sizing ndebug AliasTable_default [w0, w1, w2, w3, w4] zero =
     Some (Inr (\<lparr>shr_m = 61, a_m = [0, 0, 0, 0, 0, 0, 0, 0], p_m = [0, 0, 0, 0, 0, 0, 0, 0]\<rparr>,
                [w0, w1, w2, w3, w4, zero, zero, zero]))"
  by (simp add: CreateInplace_sizing_def RoundUp_5 AliasTable_default_def resize_def Let_def
      replicate_8 replicate_3)

lemma CreateInplace_sizing_4:
  "CreateInplace_sizing ndebug AliasTable_default [w0, w1, w2, w3] zero =
     Some (Inr (\<lparr>shr_m = 62, a_m = [0, 0, 0, 0], p_m = [0, 0, 0, 0]\<rparr>, [w0, w1, w2, w3]))"
proof -
  have "RoundUp 4 = Some (4, 2)"
    unfolding RoundUp_def by (subst RoundUp_loop.simps, simp)+
  then show ?thesis
    by (simp add: CreateInplace_sizing_def AliasTable_default_def resize_def Let_def
        replicate_4)
qed


text \<open>
  C6, as the code has it. For a weight vector of at most \<open>2^32 - 1\<close> elements (the bound
  of the assertion; \<open>2^32\<close> elements pass only where \<open>NDEBUG\<close> removes the assertion),
  \<open>CreateInplace\<close> pads the vector with zero weights to \<open>2^k\<close> elements, the least power of two
  with \<open>k \<ge> 1\<close> that is at least the length, resizes \<open>a_\<close> and \<open>p_\<close> to \<open>2^k\<close> elements
  and sets \<open>shr_ = 64 - k\<close>; for a vector of 5 weights the size is 8.
\<close>

theorem CreateInplace_pads_to_power_of_two:
  assumes "length v \<le> 4294967295 \<or> (ndebug \<and> length v = 4294967296)"
  shows "\<exists>k tbl' v'.
           CreateInplace_sizing ndebug tbl v zero = Some (Inr (tbl', v'))
           \<and> 1 \<le> k \<and> k \<le> 32 \<and> length v \<le> 2 ^ k \<and> (k = 1 \<or> 2 ^ (k - 1) < length v)
           \<and> v' = v @ replicate (2 ^ k - length v) zero
           \<and> length v' = 2 ^ k \<and> length (a_m tbl') = 2 ^ k \<and> length (p_m tbl') = 2 ^ k
           \<and> shr_m tbl' = 64 - int k
           \<and> (length v = 5 \<longrightarrow> length (a_m tbl') = 8)"
proof -
  from CreateInplace_sizing_result [OF assms, of tbl zero] obtain k
    where k: "1 \<le> k" "k \<le> 32" "length v \<le> 2 ^ k" "k = 1 \<or> 2 ^ (k - 1) < length v"
      and r: "CreateInplace_sizing ndebug tbl v zero =
               Some (Inr (\<lparr>shr_m = 64 - int k,
                            a_m = resize (2 ^ k) 0 (a_m tbl),
                            p_m = resize (2 ^ k) 0 (p_m tbl)\<rparr>,
                          v @ replicate (2 ^ k - length v) zero))"
    by blast
  have five: "(2 :: nat) ^ k = 8" if "length v = 5"
  proof -
    from that k(3) have "(2 :: nat) ^ 2 < 2 ^ k"
      by simp
    then have "2 < k"
      by (rule pow2_less_D)
    moreover from that k(4) have "(2 :: nat) ^ (k - 1) < 2 ^ 3"
      by auto
    then have "k - 1 < 3"
      by (rule pow2_less_D)
    ultimately have "k = 3"
      by simp
    then show ?thesis
      by simp
  qed
  let ?tbl = "\<lparr>shr_m = 64 - int k, a_m = resize (2 ^ k) 0 (a_m tbl),
                p_m = resize (2 ^ k) 0 (p_m tbl)\<rparr>"
  let ?v = "v @ replicate (2 ^ k - length v) zero"
  from k(3) have "length ?v = 2 ^ k"
    by simp
  with k r five have "CreateInplace_sizing ndebug tbl v zero = Some (Inr (?tbl, ?v))
           \<and> 1 \<le> k \<and> k \<le> 32 \<and> length v \<le> 2 ^ k \<and> (k = 1 \<or> 2 ^ (k - 1) < length v)
           \<and> ?v = v @ replicate (2 ^ k - length v) zero
           \<and> length ?v = 2 ^ k \<and> length (a_m ?tbl) = 2 ^ k \<and> length (p_m ?tbl) = 2 ^ k
           \<and> shr_m ?tbl = 64 - int k
           \<and> (length v = 5 \<longrightarrow> length (a_m ?tbl) = 8)"
    by (simp add: length_resize)
  then show ?thesis
    by blast
qed

theorem CreateInplace_pads_to_power_of_two_witness:
  "length [3, 1, 4, 1, 5 :: real] \<le> 4294967295
   \<and> (\<exists>k tbl' v'.
         CreateInplace_sizing False AliasTable_default [3, 1, 4, 1, 5 :: real] 0 = Some (Inr (tbl', v'))
         \<and> length [3, 1, 4, 1, 5 :: real] \<le> 2 ^ k
         \<and> length v' = 2 ^ k \<and> length (a_m tbl') = 2 ^ k \<and> length (p_m tbl') = 2 ^ k
         \<and> shr_m tbl' = 64 - int k \<and> length (a_m tbl') = 8)
   \<and> CreateInplace_sizing False AliasTable_default [3, 1, 4, 1, 5 :: real] 0 =
       Some (Inr (\<lparr>shr_m = 61, a_m = [0, 0, 0, 0, 0, 0, 0, 0], p_m = [0, 0, 0, 0, 0, 0, 0, 0]\<rparr>,
                  [3, 1, 4, 1, 5, 0, 0, 0]))"
proof -
  have h: "length [3, 1, 4, 1, 5 :: real] \<le> 4294967295
      \<or> (False \<and> length [3, 1, 4, 1, 5 :: real] = 4294967296)"
    by simp
  have l: "length [3, 1, 4, 1, 5 :: real] = 5"
    by simp
  from CreateInplace_pads_to_power_of_two [OF h, of AliasTable_default 0] l
  have "\<exists>k tbl' v'.
         CreateInplace_sizing False AliasTable_default [3, 1, 4, 1, 5 :: real] 0 = Some (Inr (tbl', v'))
         \<and> length [3, 1, 4, 1, 5 :: real] \<le> 2 ^ k
         \<and> length v' = 2 ^ k \<and> length (a_m tbl') = 2 ^ k \<and> length (p_m tbl') = 2 ^ k
         \<and> shr_m tbl' = 64 - int k \<and> length (a_m tbl') = 8"
    by blast
  then show ?thesis
    using CreateInplace_sizing_5 [of False 3 1 4 1 5 "0 :: real"] by simp
qed

text \<open>
  With \<open>2^32\<close> weights and the assertion compiled in, \<open>CreateInplace\<close> stops at the
  assertion \<open>v->size() <= 4294967295\<close>.
\<close>

theorem CreateInplace_size_2_32_counterexample:
  "length (replicate 4294967296 (1 :: real)) = 2 ^ 32
   \<and> CreateInplace_sizing False AliasTable_default (replicate 4294967296 (1 :: real)) 0 =
       Some (Inl AssertionFailed)"
  by (simp add: CreateInplace_sizing_def)

text \<open>
  C1 at the table of the four weights \<open>1, 1, 1, 1\<close> and the draw \<open>0xC000000000000000\<close>.
  The sizing gives \<open>shr_ = 62\<close> and four slots. \<open>Get\<close> passes \<open>u >> 62\<close>, a value below 4,
  to \<open>random_u32_pair\<close>, whose second component (the slot) is the high 32 bits of that
  value, 0, and whose first (the comparison value) is its low 32 bits, the top two bits
  of the draw: whatever the table holds, \<open>Get\<close> reads slot 0 and compares \<open>p_[0]\<close> with 3,
  where the claim reads slot 3 and compares \<open>p_[3]\<close> with the low 32 bits of the draw, 0.
  Lines 485 to 538 fill the table for these weights with \<open>p_[i] = 0xFFFFFFFF\<close> and
  \<open>a_[i] = i\<close> (the mean \<open>d\<close> is 1, no weight is below it, and only the loop after the
  test \<open>g < sz\<close> writes); there \<open>Get\<close> returns 0 and the claim gives 3.
\<close>

theorem Get_ignores_slot_index:
  "CreateInplace_sizing ndebug AliasTable_default [w0, w1, w2, w3] zero =
     Some (Inr (\<lparr>shr_m = 62, a_m = [0, 0, 0, 0], p_m = [0, 0, 0, 0]\<rparr>, [w0, w1, w2, w3]))
   \<and> Get \<lparr>shr_m = 62, a_m = [a0, a1, a2, a3], p_m = [p0, p1, p2, p3]\<rparr> 0xC000000000000000
       = Inr (if 3 < p0 then 0 else sint a0)
   \<and> Get_as_claimed \<lparr>shr_m = 62, a_m = [a0, a1, a2, a3], p_m = [p0, p1, p2, p3]\<rparr>
         0xC000000000000000
       = (if 0 < p3 then 3 else sint a3)
   \<and> Get \<lparr>shr_m = 62, a_m = [0, 1, 2, 3],
            p_m = [0xFFFFFFFF, 0xFFFFFFFF, 0xFFFFFFFF, 0xFFFFFFFF]\<rparr> 0xC000000000000000
       = Inr 0
   \<and> Get_as_claimed \<lparr>shr_m = 62, a_m = [0, 1, 2, 3],
            p_m = [0xFFFFFFFF, 0xFFFFFFFF, 0xFFFFFFFF, 0xFFFFFFFF]\<rparr> 0xC000000000000000
       = 3"
proof -
  have d: "drop_bit 62 (0xC000000000000000 :: 64 word) = 3"
    by simp
  have low: "(0xC000000000000000 :: 32 word) = 0"
    by simp
  have g: "Get \<lparr>shr_m = 62, a_m = [a0, a1, a2, a3], p_m = [p0, p1, p2, p3]\<rparr> 0xC000000000000000
       = Inr (if 3 < p0 then 0 else sint a0)" for a0 a1 a2 a3 p0 p1 p2 p3
    by (simp add: Get_def random_u32_pair_def Let_def d)
  have c: "Get_as_claimed \<lparr>shr_m = 62, a_m = [a0, a1, a2, a3], p_m = [p0, p1, p2, p3]\<rparr>
         0xC000000000000000
       = (if 0 < p3 then 3 else sint a3)" for a0 a1 a2 a3 p0 p1 p2 p3
    by (simp add: Get_as_claimed_def Let_def d low)
  show ?thesis
    by (simp only: CreateInplace_sizing_4 g c) simp
qed

end
